theory Spec2Isabelle
  imports Main "HOL-Library.Word" "HOL-Library.Sublist"
begin

section \<open>Probe error classification (scheduler/scheduler.go)\<close>

text \<open>
  A Go \<^verbatim>\<open>error\<close> value is either \<^verbatim>\<open>nil\<close> or carries a text
  (\<^verbatim>\<open>err.Error()\<close>): it is modelled as a \<^typ>\<open>string option\<close>. A Go string is a
  list of bytes, here a list of \<^typ>\<open>char\<close>; a rune is a natural number.

  \<^verbatim>\<open>strings.ToUpper\<close> is Unicode-aware. On a text of ASCII bytes only it maps the bytes
  \<^verbatim>\<open>a..z\<close> to \<^verbatim>\<open>A..Z\<close> and keeps every other byte. On any other text it is
  \<^verbatim>\<open>strings.Map(unicode.ToUpper, s)\<close>: the text is read rune by rune as
  \<^verbatim>\<open>for _, c := range s\<close> does (\<^verbatim>\<open>utf8.DecodeRuneInString\<close>: a byte that does not
  begin a well-formed UTF-8 sequence is read alone, as the rune \<^verbatim>\<open>utf8.RuneError\<close>,
  U+FFFD), every rune is mapped, and the results are written in UTF-8
  (\<^verbatim>\<open>utf8.AppendRune\<close>: a surrogate or a value above U+10FFFF is written as U+FFFD).
  \<^verbatim>\<open>strings.Map\<close> copies the bytes of the runes before the first one that changes instead
  of writing them again; they are well-formed sequences, which decoding and encoding give
  back byte for byte.

  \<^verbatim>\<open>unicode.ToUpper\<close> maps an ASCII rune by the same rule as the byte loop and looks up
  every other rune in the case tables of package \<^verbatim>\<open>unicode\<close>
  (\<^verbatim>\<open>unicode.CaseRanges\<close>). Those tables are data of the Go library, not among the
  sources: they are the parameter \<open>up\<close> of the functions below, \<open>up r\<close> being the
  upper-case form of the rune \<open>r\<close> above U+007F, and every property is proved for every
  table.
\<close>

definition RuneError :: nat where
  "RuneError = 65533"

text \<open>
  \<^verbatim>\<open>utf8.DecodeRuneInString\<close>: the first rune of a text and the number of bytes it takes.
  The first byte fixes the length of the sequence and the range of the second byte (which
  excludes over-long forms, surrogates and values above U+10FFFF); the other bytes are
  continuation bytes \<^verbatim>\<open>0x80..0xBF\<close>.
\<close>

definition DecodeRune :: "string \<Rightarrow> nat \<times> nat" where
  "DecodeRune s =
     (case s of
        [] \<Rightarrow> (RuneError, 0)
      | c0 # cs \<Rightarrow>
          (let s0 = (of_char c0 :: nat) in
           if s0 < 128 then (s0, 1)
           else if s0 < 194 \<or> 244 < s0 then (RuneError, 1)
           else
             (let sz = (if s0 < 224 then 2 else if s0 < 240 then 3 else 4 :: nat);
                  lo = (if s0 = 224 then 160 else if s0 = 240 then 144 else 128 :: nat);
                  hi = (if s0 = 237 then 159 else if s0 = 244 then 143 else 191 :: nat)
              in
                if length s < sz then (RuneError, 1)
                else
                  (let s1 = (of_char (s ! 1) :: nat) in
                   if s1 < lo \<or> hi < s1 then (RuneError, 1)
                   else if sz \<le> 2 then ((s0 mod 32) * 64 + s1 mod 64, 2)
                   else
                     (let s2 = (of_char (s ! 2) :: nat) in
                      if s2 < 128 \<or> 191 < s2 then (RuneError, 1)
                      else if sz \<le> 3 then
                        ((s0 mod 16) * 4096 + (s1 mod 64) * 64 + s2 mod 64, 3)
                      else
                        (let s3 = (of_char (s ! 3) :: nat) in
                         if s3 < 128 \<or> 191 < s3 then (RuneError, 1)
                         else
                           ((s0 mod 8) * 262144 + (s1 mod 64) * 4096 + (s2 mod 64) * 64
                              + s3 mod 64, 4)))))))"

text \<open>The runes \<^verbatim>\<open>for _, c := range s\<close> yields, in order.\<close>

function runes :: "string \<Rightarrow> nat list" where
  "runes [] = []"
| "runes (c # cs) = fst (DecodeRune (c # cs)) # runes (drop (snd (DecodeRune (c # cs)) - 1) cs)"
  by pat_completeness auto
termination
  by (relation "measure length") auto

text \<open>\<^verbatim>\<open>utf8.AppendRune\<close>: the UTF-8 bytes of a rune.\<close>

definition EncodeRune :: "nat \<Rightarrow> string" where
  "EncodeRune r =
     (if r \<le> 127 then [char_of r]
      else if r \<le> 2047 then [char_of (192 + r div 64), char_of (128 + r mod 64)]
      else if 1114111 < r \<or> (55296 \<le> r \<and> r \<le> 57343) then
        [char_of (239 :: nat), char_of (191 :: nat), char_of (189 :: nat)]
      else if r \<le> 65535 then
        [char_of (224 + r div 4096), char_of (128 + (r div 64) mod 64), char_of (128 + r mod 64)]
      else
        [char_of (240 + r div 262144), char_of (128 + (r div 4096) mod 64),
         char_of (128 + (r div 64) mod 64), char_of (128 + r mod 64)])"

definition Map :: "(nat \<Rightarrow> nat) \<Rightarrow> string \<Rightarrow> string" where
  "Map mapping s = concat (map (\<lambda>c. EncodeRune (mapping c)) (runes s))"

definition unicode_ToUpper :: "(nat \<Rightarrow> nat) \<Rightarrow> nat \<Rightarrow> nat" where
  "unicode_ToUpper up r =
     (if r \<le> 127 then (if 97 \<le> r \<and> r \<le> 122 then r - 32 else r) else up r)"

definition upper_byte :: "char \<Rightarrow> char" where
  "upper_byte c =
     (let n = (of_char c :: nat) in if 97 \<le> n \<and> n \<le> 122 then char_of (n - 32) else c)"

definition isASCII :: "string \<Rightarrow> bool" where
  "isASCII s = list_all (\<lambda>c. (of_char c :: nat) < 128) s"

definition ToUpper :: "(nat \<Rightarrow> nat) \<Rightarrow> string \<Rightarrow> string" where
  "ToUpper up s = (if isASCII s then map upper_byte s else Map (unicode_ToUpper up) s)"

text \<open>
  \<^verbatim>\<open>strings.Contains s substr\<close> holds when \<^verbatim>\<open>substr\<close> occurs in \<^verbatim>\<open>s\<close> as a
  contiguous run of bytes.
\<close>

fun Contains :: "string \<Rightarrow> string \<Rightarrow> bool" where
  "Contains [] substr = (substr = [])"
| "Contains (c # s) substr = (prefix substr (c # s) \<or> Contains s substr)"

definition isTopicNotFound :: "(nat \<Rightarrow> nat) \<Rightarrow> string option \<Rightarrow> bool" where
  "isTopicNotFound up err =
     (case err of
        None \<Rightarrow> False
      | Some e \<Rightarrow>
          (let msg = ToUpper up e in
             Contains msg ''TOPIC_NOT_FOUND'' \<or> Contains msg ''TOPIC_ID_INVALID''
               \<or> Contains msg ''MESSAGE_THREAD_INVALID''))"

definition isTopicNotModified :: "(nat \<Rightarrow> nat) \<Rightarrow> string option \<Rightarrow> bool" where
  "isTopicNotModified up err =
     (case err of
        None \<Rightarrow> False
      | Some e \<Rightarrow> (let msg = ToUpper up e in Contains msg ''TOPIC_NOT_MODIFIED''))"

text \<open>
  The copy of \<^verbatim>\<open>isTopicNotFound\<close> in package \<^verbatim>\<open>utils\<close> (an earlier revision of the
  scheduler, with a tick every minute and no resynchronisation) has two patterns.
\<close>

definition isTopicNotFound_utils :: "(nat \<Rightarrow> nat) \<Rightarrow> string option \<Rightarrow> bool" where
  "isTopicNotFound_utils up err =
     (case err of
        None \<Rightarrow> False
      | Some e \<Rightarrow>
          (let msg = ToUpper up e in
             Contains msg ''TOPIC_NOT_FOUND'' \<or> Contains msg ''MESSAGE_THREAD_INVALID''))"

section \<open>The persisted mapping store and the collaborators of the scheduler\<close>

type_synonym int64 = "64 word"

text \<open>
  Modelled from the spec: the rows of the two tables, whose Go structs are declared in
  package \<^verbatim>\<open>database\<close>, not among the sources. A pairing row is \<open>{chatId: string,
  tgThreadId: int64, tgChatId: int64}\<close> and a message pair is \<open>{tgChatId, tgThreadId,
  peerMessageId, tgMessageId}\<close>. The code reads \<^verbatim>\<open>pair.ID\<close> and \<^verbatim>\<open>pair.TgThreadId\<close>,
  and the SQL of \<^verbatim>\<open>CleanUpMsg\<close> names the column \<^verbatim>\<open>tg_thread_id\<close> of both tables. A table
  is the list of its rows.
\<close>

record ChatThreadPair =
  ID :: string
  TgChatId :: int64
  TgThreadId :: int64

record MsgIdPair =
  MsgTgChatId :: int64
  MsgTgThreadId :: int64
  WaMsgId :: string
  TgMsgId :: int64

record Database =
  chat_thread_pairs :: "ChatThreadPair list"
  msg_id_pairs :: "MsgIdPair list"

text \<open>
  Modelled from the spec: \<^verbatim>\<open>utils.WaSyncContacts\<close> and
  \<^verbatim>\<open>utils.SyncTopicNameByChatThreadPairs\<close> are not among the sources; they are collaborator
  calls that act on the two platforms and leave the two tables alone. Everything the
  scheduler does to the outside is recorded, in order, as an effect: the calls to
  collaborators (contact synchronisation, read of the pairing rows, probe, topic-name
  resynchronisation, the two deletes, \<^verbatim>\<open>db.Exec\<close>) and the log entries with their
  \<^verbatim>\<open>zap\<close> fields.
\<close>

datatype field = Err string | Int64 string int64 | Str string string

datatype level = Info | Error

datatype effect =
    SyncContacts
  | ReadPairs int64
  | Probe int64 int64
  | Resync int64 "ChatThreadPair list"
  | DeleteMsgs int64 int64
  | DropPair int64 int64
  | Exec string
  | Log level string "field list"

text \<open>
  The environment of one run: the handles of \<^verbatim>\<open>state.State\<close> the code tests against
  \<^verbatim>\<open>nil\<close>, the configured target chat, the answers of the collaborators (the error
  each call returns, \<^const>\<open>None\<close> for \<^verbatim>\<open>nil\<close>), and the upper-case table of the Go
  library the program is built with. \<^verbatim>\<open>state.State.Logger\<close> is taken to be
  installed: the calls \<^verbatim>\<open>logger.Error\<close> and \<^verbatim>\<open>logger.Info\<close> of
  \<^verbatim>\<open>cleanupDeletedTopics\<close> are made without a test, so the tests \<^verbatim>\<open>logger != nil\<close>
  elsewhere are true.
\<close>

record env =
  TelegramBot :: bool
  DatabaseHandle :: bool
  TargetChatID :: int64
  WaSyncContacts :: "string option"
  get_pairs_error :: "int64 \<Rightarrow> string option"
  ReopenForumTopic :: "int64 \<Rightarrow> int64 \<Rightarrow> string option"
  delete_msgs_error :: "int64 \<Rightarrow> int64 \<Rightarrow> string option"
  drop_pair_error :: "int64 \<Rightarrow> int64 \<Rightarrow> string option"
  exec_error :: "string \<Rightarrow> string option"
  UpperCase :: "nat \<Rightarrow> nat"

text \<open>
  Modelled from the spec: the query surface of package \<^verbatim>\<open>database\<close>, which is not among
  the sources. \<^verbatim>\<open>getAllChatThreadPairs(groupId)\<close> returns the pairing rows of the group;
  \<^verbatim>\<open>deleteMessagePairsByThread(groupId, threadId)\<close> deletes the message pairs of the
  topic; \<^verbatim>\<open>dropChatThreadPair(groupId, threadId)\<close> deletes the pairing row of the topic.
  A call that returns an error leaves the tables as they were.
\<close>

definition ChatThreadGetAllPairs ::
  "env \<Rightarrow> Database \<Rightarrow> int64 \<Rightarrow> string + ChatThreadPair list" where
  "ChatThreadGetAllPairs w db tgChatId =
     (case get_pairs_error w tgChatId of
        Some e \<Rightarrow> Inl e
      | None \<Rightarrow> Inr (filter (\<lambda>p. TgChatId p = tgChatId) (chat_thread_pairs db)))"

definition MsgIdDeletePairsByThreadId ::
  "env \<Rightarrow> int64 \<Rightarrow> int64 \<Rightarrow> Database \<Rightarrow> string option \<times> Database" where
  "MsgIdDeletePairsByThreadId w tgChatId threadId db =
     (case delete_msgs_error w tgChatId threadId of
        Some e \<Rightarrow> (Some e, db)
      | None \<Rightarrow>
          (None, db\<lparr>msg_id_pairs :=
             filter (\<lambda>m. \<not> (MsgTgChatId m = tgChatId \<and> MsgTgThreadId m = threadId))
               (msg_id_pairs db)\<rparr>))"

definition ChatThreadDropPairByTg ::
  "env \<Rightarrow> int64 \<Rightarrow> int64 \<Rightarrow> Database \<Rightarrow> string option \<times> Database" where
  "ChatThreadDropPairByTg w tgChatId threadId db =
     (case drop_pair_error w tgChatId threadId of
        Some e \<Rightarrow> (Some e, db)
      | None \<Rightarrow>
          (None, db\<lparr>chat_thread_pairs :=
             filter (\<lambda>p. \<not> (TgChatId p = tgChatId \<and> TgThreadId p = threadId))
               (chat_thread_pairs db)\<rparr>))"

section \<open>The reconciliation tick: \<^verbatim>\<open>cleanupDeletedTopics\<close>\<close>

text \<open>
  The state threaded through a tick: the store and the effects so far. The probe
  \<^verbatim>\<open>queue.TgReopenForumTopic(bot, tgChatId, threadId, nil)\<close> goes through the Telegram
  queue, which hands back the error of \<^verbatim>\<open>bot.ReopenForumTopic\<close> as it is; its answer is
  \<^const>\<open>ReopenForumTopic\<close> of the environment.
\<close>

record tick =
  db :: Database
  effects :: "effect list"

definition emit :: "effect list \<Rightarrow> tick \<Rightarrow> tick" where
  "emit es s = s\<lparr>effects := effects s @ es\<rparr>"

definition delete_msgs :: "env \<Rightarrow> int64 \<Rightarrow> int64 \<Rightarrow> tick \<Rightarrow> tick" where
  "delete_msgs w tgChatId threadId s =
     (case MsgIdDeletePairsByThreadId w tgChatId threadId (db s) of
        (err, db') \<Rightarrow>
          (let s' = emit [DeleteMsgs tgChatId threadId] (s\<lparr>db := db'\<rparr>) in
           case err of
             Some e \<Rightarrow>
               emit [Log Error ''[scheduler] failed to delete msg_id_pairs for deleted topic''
                       [Int64 ''tg_thread_id'' threadId, Err e]] s'
           | None \<Rightarrow> s'))"

definition drop_pair :: "env \<Rightarrow> int64 \<Rightarrow> int64 \<Rightarrow> tick \<Rightarrow> tick" where
  "drop_pair w tgChatId threadId s =
     (case ChatThreadDropPairByTg w tgChatId threadId (db s) of
        (err, db') \<Rightarrow>
          (let s' = emit [DropPair tgChatId threadId] (s\<lparr>db := db'\<rparr>) in
           case err of
             Some e \<Rightarrow>
               emit [Log Error ''[scheduler] failed to delete chat_thread_pairs for deleted topic''
                       [Int64 ''tg_thread_id'' threadId, Err e]] s'
           | None \<Rightarrow> s'))"

text \<open>The body of \<^verbatim>\<open>for _, pair := range pairs\<close>; \<^verbatim>\<open>continue\<close> returns the state.\<close>

definition loop_body ::
  "env \<Rightarrow> int64 \<Rightarrow> ChatThreadPair list \<Rightarrow> tick \<Rightarrow> ChatThreadPair \<Rightarrow> tick" where
  "loop_body w tgChatId pairs s pair =
     (let threadId = TgThreadId pair in
      if sint threadId \<le> 1 then s
      else
        (let probeErr = ReopenForumTopic w tgChatId threadId;
             s1 = emit [Probe tgChatId threadId] s
         in
           if probeErr = None \<or> \<not> isTopicNotFound (UpperCase w) probeErr then
             (if isTopicNotModified (UpperCase w) probeErr then emit [Resync tgChatId pairs] s1
              else s1)
           else
             (let s2 = emit [Log Info ''[scheduler] detected deleted Telegram topic, cleaning up''
                           [Int64 ''tg_chat_id'' tgChatId, Int64 ''tg_thread_id'' threadId,
                            Str ''wa_chat_id'' (ID pair)]] s1;
                  s3 = delete_msgs w tgChatId threadId s2
              in drop_pair w tgChatId threadId s3)))"

definition cleanupDeletedTopics :: "env \<Rightarrow> Database \<Rightarrow> tick" where
  "cleanupDeletedTopics w d =
     (let s0 = \<lparr>db = d, effects = []\<rparr> in
      if \<not> TelegramBot w then s0
      else
        (let s1 = emit [SyncContacts] s0;
             s2 = (case WaSyncContacts w of
                     Some e \<Rightarrow>
                       emit [Log Error ''[scheduler] failed to sync WhatsApp contacts'' [Err e]] s1
                   | None \<Rightarrow> s1);
             tgChatId = TargetChatID w;
             s3 = emit [ReadPairs tgChatId] s2
         in
           case ChatThreadGetAllPairs w (db s3) tgChatId of
             Inl e \<Rightarrow>
               emit [Log Error
                 ''[scheduler] failed to fetch chat_thread_pairs for topic cleanup'' [Err e]] s3
           | Inr pairs \<Rightarrow> foldl (loop_body w tgChatId pairs) s3 pairs))"

text \<open>
  The branch a probe error selects in the loop body, as an outcome: the deletion branch is
  \<^verbatim>\<open>NotFound\<close>, the branch that calls the name resynchronisation is \<^verbatim>\<open>Unchanged\<close>, and
  the branch that only continues is \<^verbatim>\<open>Exists\<close>.
\<close>

datatype ProbeOutcome = Exists | Unchanged | NotFound

definition classify :: "(nat \<Rightarrow> nat) \<Rightarrow> string option \<Rightarrow> ProbeOutcome" where
  "classify up probeErr =
     (if probeErr = None \<or> \<not> isTopicNotFound up probeErr then
        (if isTopicNotModified up probeErr then Unchanged else Exists)
      else NotFound)"

text \<open>
  The classification in the words of the specification. The error text is read as its
  characters (runes). Two characters are the same letter up to case when their upper-case
  forms are equal; a text contains a pattern case-insensitively when the text, read from
  some position, begins with the pattern letter by letter.
\<close>

definition same_letter :: "(nat \<Rightarrow> nat) \<Rightarrow> nat \<Rightarrow> nat \<Rightarrow> bool" where
  "same_letter up a b = (unicode_ToUpper up a = unicode_ToUpper up b)"

definition contains_ci :: "(nat \<Rightarrow> nat) \<Rightarrow> string \<Rightarrow> string \<Rightarrow> bool" where
  "contains_ci up txt pat =
     list_ex (\<lambda>u. list_all2 (same_letter up) (take (length (runes pat)) u) (runes pat))
       (suffixes (runes txt))"

definition classify_spec :: "(nat \<Rightarrow> nat) \<Rightarrow> string option \<Rightarrow> ProbeOutcome" where
  "classify_spec up err =
     (case err of
        None \<Rightarrow> Exists
      | Some e \<Rightarrow>
          if contains_ci up e ''TOPIC_NOT_FOUND'' \<or> contains_ci up e ''TOPIC_ID_INVALID''
               \<or> contains_ci up e ''MESSAGE_THREAD_INVALID''
          then NotFound
          else if contains_ci up e ''TOPIC_NOT_MODIFIED'' then Unchanged
          else Exists)"

text \<open>A pattern without lower-case ASCII letters, as the four patterns of the code are.\<close>

definition no_lower :: "string \<Rightarrow> bool" where
  "no_lower p = list_all (\<lambda>b. \<not> (97 \<le> (of_char b :: nat) \<and> (of_char b :: nat) \<le> 122)) p"

text \<open>
  A pairing row is doomed in a tick of environment \<open>w\<close> for the group \<open>c\<close> when the loop
  body reaches its deletion branch for it: the row is not skipped and its probe error is a
  not-found error. The doomed row \<open>p\<close> removes the pairing row \<open>q\<close> (the message pair
  \<open>m\<close>) when the delete call succeeds and \<open>q\<close> (\<open>m\<close>) belongs to the topic of \<open>p\<close>. The
  effects of one iteration are those the loop body adds.
\<close>

definition doomed :: "env \<Rightarrow> int64 \<Rightarrow> ChatThreadPair \<Rightarrow> bool" where
  "doomed w c p =
     (\<not> sint (TgThreadId p) \<le> 1
      \<and> classify (UpperCase w) (ReopenForumTopic w c (TgThreadId p)) = NotFound)"

definition drops_pair :: "env \<Rightarrow> int64 \<Rightarrow> ChatThreadPair \<Rightarrow> ChatThreadPair \<Rightarrow> bool" where
  "drops_pair w c p q =
     (doomed w c p \<and> drop_pair_error w c (TgThreadId p) = None
      \<and> TgChatId q = c \<and> TgThreadId q = TgThreadId p)"

definition deletes_msg :: "env \<Rightarrow> int64 \<Rightarrow> ChatThreadPair \<Rightarrow> MsgIdPair \<Rightarrow> bool" where
  "deletes_msg w c p m =
     (doomed w c p \<and> delete_msgs_error w c (TgThreadId p) = None
      \<and> MsgTgChatId m = c \<and> MsgTgThreadId m = TgThreadId p)"

definition row_effects ::
  "env \<Rightarrow> int64 \<Rightarrow> ChatThreadPair list \<Rightarrow> ChatThreadPair \<Rightarrow> effect list" where
  "row_effects w c ps p =
     effects (loop_body w c ps
       \<lparr>db = \<lparr>chat_thread_pairs = [], msg_id_pairs = []\<rparr>, effects = []\<rparr> p)"

definition is_log :: "effect \<Rightarrow> bool" where
  "is_log e = (case e of Log l m fs \<Rightarrow> True | _ \<Rightarrow> False)"

text \<open>The rows the loop of a tick visits: none when the tick returns before the loop.\<close>

definition visited :: "env \<Rightarrow> Database \<Rightarrow> ChatThreadPair list" where
  "visited w d =
     (if TelegramBot w then
        (case ChatThreadGetAllPairs w d (TargetChatID w) of Inl e \<Rightarrow> [] | Inr pairs \<Rightarrow> pairs)
      else [])"

section \<open>The orphan sweep: \<^verbatim>\<open>CleanUpMsg\<close>\<close>

text \<open>
  The statement \<^verbatim>\<open>CleanUpMsg\<close> hands to \<^verbatim>\<open>db.Exec\<close>, and its meaning on the two tables.
  The left join pairs every row \<open>a\<close> of \<^verbatim>\<open>msg_id_pairs\<close> with each row \<open>b\<close> of
  \<^verbatim>\<open>chat_thread_pairs\<close> that satisfies the \<^verbatim>\<open>ON\<close> condition, and with no row
  (\<^const>\<open>None\<close>: every column of \<open>b\<close> is \<^verbatim>\<open>NULL\<close>) when there is none. The columns hold
  the \<^verbatim>\<open>int64\<close> fields of the Go structs, which are never \<^verbatim>\<open>NULL\<close>, so
  \<^verbatim>\<open>b.tg_thread_id IS NULL\<close> selects the joined rows without a \<open>b\<close>. \<^verbatim>\<open>DELETE a\<close> removes
  the rows of \<open>a\<close> that are selected; \<^verbatim>\<open>RowsAffected\<close> is their number.
\<close>

definition orphan_sql :: string where
  "orphan_sql = ''DELETE a FROM msg_id_pairs AS a LEFT JOIN chat_thread_pairs AS b ON a.tg_thread_id = b.tg_thread_id WHERE b.tg_thread_id IS NULL;''"

definition join_row ::
  "MsgIdPair \<Rightarrow> ChatThreadPair list \<Rightarrow> (MsgIdPair \<times> ChatThreadPair option) list" where
  "join_row a bs =
     (case filter (\<lambda>b. MsgTgThreadId a = TgThreadId b) bs of
        [] \<Rightarrow> [(a, None)]
      | matches \<Rightarrow> map (\<lambda>b. (a, Some b)) matches)"

definition left_join ::
  "MsgIdPair list \<Rightarrow> ChatThreadPair list \<Rightarrow> (MsgIdPair \<times> ChatThreadPair option) list" where
  "left_join as bs = concat (map (\<lambda>a. join_row a bs) as)"

definition b_is_null :: "MsgIdPair \<times> ChatThreadPair option \<Rightarrow> bool" where
  "b_is_null r = (snd r = None)"

definition delete_orphans :: "Database \<Rightarrow> Database \<times> nat" where
  "delete_orphans d =
     (let selected = map fst (filter b_is_null (left_join (msg_id_pairs d) (chat_thread_pairs d)));
          kept = filter (\<lambda>a. a \<notin> set selected) (msg_id_pairs d)
      in (d\<lparr>msg_id_pairs := kept\<rparr>, length (msg_id_pairs d) - length kept))"

definition CleanUpMsg :: "env \<Rightarrow> Database \<Rightarrow> tick" where
  "CleanUpMsg w d =
     (let s0 = \<lparr>db = d, effects = []\<rparr> in
      if DatabaseHandle w then
        (let s1 = emit [Exec orphan_sql] s0 in
         case exec_error w orphan_sql of
           Some e \<Rightarrow>
             emit [Log Error ''[scheduler] failed to clean up orphaned msg_id_pairs'' [Err e]] s1
         | None \<Rightarrow>
             (case delete_orphans (db s1) of
                (d', n) \<Rightarrow>
                  emit [Log Info ''[scheduler] cleaned up orphaned msg_id_pairs''
                          [Int64 ''rows_affected'' (of_nat n)]] (s1\<lparr>db := d'\<rparr>)))
      else s0)"

text \<open>
  The sweep in the words of the specification: a message pair stays when its
  \<open>(tgChatId, tgThreadId)\<close> appears in the pairing table.
\<close>

definition topic_of_pair :: "ChatThreadPair \<Rightarrow> int64 \<times> int64" where
  "topic_of_pair p = (TgChatId p, TgThreadId p)"

definition topic_of_msg :: "MsgIdPair \<Rightarrow> int64 \<times> int64" where
  "topic_of_msg m = (MsgTgChatId m, MsgTgThreadId m)"

definition sweep_spec :: "Database \<Rightarrow> Database" where
  "sweep_spec d =
     d\<lparr>msg_id_pairs :=
        filter (\<lambda>m. topic_of_msg m \<in> set (map topic_of_pair (chat_thread_pairs d)))
          (msg_id_pairs d)\<rparr>"

text \<open>What the statement keeps: the message pairs whose thread id some pairing row has.\<close>

definition sweep_by_thread :: "Database \<Rightarrow> Database" where
  "sweep_by_thread d =
     d\<lparr>msg_id_pairs :=
        filter (\<lambda>m. MsgTgThreadId m \<in> set (map TgThreadId (chat_thread_pairs d)))
          (msg_id_pairs d)\<rparr>"

text \<open>The number of message pairs a run of the sweep removes from a store.\<close>

definition rows_deleted :: "env \<Rightarrow> Database \<Rightarrow> nat" where
  "rows_deleted w d = length (msg_id_pairs d) - length (msg_id_pairs (db (CleanUpMsg w d)))"

section \<open>Sample environments and stores\<close>

text \<open>
  The case table of the sample environments holds the two runes above U+007F whose
  upper-case form is an ASCII letter: U+0131 (dotless i, upper-case \<^verbatim>\<open>I\<close>) and U+017F
  (long s, upper-case \<^verbatim>\<open>S\<close>); it keeps every other rune.
\<close>

definition upper_table :: "nat \<Rightarrow> nat" where
  "upper_table r = (if r = 305 then 73 else if r = 383 then 83 else r)"

definition env_ok :: env where
  "env_ok =
     \<lparr>TelegramBot = True, DatabaseHandle = True, TargetChatID = 100, WaSyncContacts = None,
      get_pairs_error = (\<lambda>c. None),
      ReopenForumTopic = (\<lambda>c t. None),
      delete_msgs_error = (\<lambda>c t. None),
      drop_pair_error = (\<lambda>c t. None),
      exec_error = (\<lambda>q. None),
      UpperCase = upper_table\<rparr>"

definition two_groups :: Database where
  "two_groups =
     \<lparr>chat_thread_pairs = [\<lparr>ID = ''C1'', TgChatId = 200, TgThreadId = 50\<rparr>],
      msg_id_pairs =
        [\<lparr>MsgTgChatId = 100, MsgTgThreadId = 50, WaMsgId = ''m1'', TgMsgId = 7\<rparr>,
         \<lparr>MsgTgChatId = 200, MsgTgThreadId = 50, WaMsgId = ''m2'', TgMsgId = 8\<rparr>,
         \<lparr>MsgTgChatId = 200, MsgTgThreadId = 51, WaMsgId = ''m3'', TgMsgId = 9\<rparr>]\<rparr>"

definition one_topic :: Database where
  "one_topic =
     \<lparr>chat_thread_pairs =
        [\<lparr>ID = ''C1'', TgChatId = 100, TgThreadId = 50\<rparr>,
         \<lparr>ID = ''C0'', TgChatId = 100, TgThreadId = 1\<rparr>],
      msg_id_pairs =
        [\<lparr>MsgTgChatId = 100, MsgTgThreadId = 50, WaMsgId = ''m1'', TgMsgId = 7\<rparr>,
         \<lparr>MsgTgChatId = 100, MsgTgThreadId = 50, WaMsgId = ''m2'', TgMsgId = 8\<rparr>,
         \<lparr>MsgTgChatId = 100, MsgTgThreadId = 1, WaMsgId = ''m3'', TgMsgId = 9\<rparr>]\<rparr>"

definition env_not_found :: env where
  "env_not_found = env_ok\<lparr>ReopenForumTopic := (\<lambda>c t. Some ''Bad Request: TOPIC_NOT_FOUND'')\<rparr>"

definition env_delete_fails :: env where
  "env_delete_fails = env_not_found\<lparr>delete_msgs_error := (\<lambda>c t. Some ''connection lost'')\<rparr>"

definition env_both_patterns :: env where
  "env_both_patterns =
     env_ok\<lparr>ReopenForumTopic := (\<lambda>c t. Some ''TOPIC_NOT_FOUND (was TOPIC_NOT_MODIFIED)'')\<rparr>"

text \<open>
  An error text that is not ASCII: the UTF-8 bytes of U+0131 stand where the pattern has
  the letter \<^verbatim>\<open>I\<close>.
\<close>

definition dotless_i :: string where
  "dotless_i = [CHR 0xC4, CHR 0xB1]"

definition env_dotless_i :: env where
  "env_dotless_i =
     env_ok\<lparr>ReopenForumTopic :=
       (\<lambda>c t. Some (''TOPIC_NOT_MODIFIED top'' @ dotless_i @ ''c_not_found''))\<rparr>"

definition env_not_modified :: env where
  "env_not_modified =
     env_ok\<lparr>ReopenForumTopic := (\<lambda>c t. Some ''Bad Request: TOPIC_NOT_MODIFIED'')\<rparr>"

definition env_no_bot :: env where
  "env_no_bot = env_not_found\<lparr>TelegramBot := False\<rparr>"

definition env_exec_fails :: env where
  "env_exec_fails = env_ok\<lparr>exec_error := (\<lambda>q. Some ''syntax error'')\<rparr>"


section \<open>The dispatch queues (queue/queue.go)\<close>

text \<open>
  One queue per platform: a buffered channel of jobs (\<^verbatim>\<open>waJobCh\<close>, \<^verbatim>\<open>tgJobCh\<close>, made with
  capacity \<^verbatim>\<open>QueueSize\<close>), one worker goroutine (\<^verbatim>\<open>waWorker\<close>, \<^verbatim>\<open>tgWorker\<close>) and any number
  of goroutines that call \<^verbatim>\<open>WaSend\<close> or \<^verbatim>\<open>TgRun\<close>. The goroutines are interleaved: the
  model is a step function on the state of one queue, and a run is a list of actions, each
  the next step of one goroutine. An action that is not enabled (the goroutine is blocked, or
  is not at that point of its code) has no successor.

  A job is the closure \<^verbatim>\<open>TgRun\<close> sends: it holds the function \<^verbatim>\<open>fn\<close> and the result
  channel \<^verbatim>\<open>ch\<close> of its call, here the number of the call. For \<^verbatim>\<open>WaSend\<close> the function is
  \<^verbatim>\<open>SendMessage(ctx, jid, msg)\<close> of the WhatsApp client. A function acts on the state \<open>'w\<close>
  of the platform client and returns its result \<open>'r\<close> (the pair of value and error).
\<close>

datatype platform = WhatsApp | Telegram

record QueueConfig =
  WhatsApp_QueueEnabled :: bool
  Telegram_QueueEnabled :: bool
  WaInterval :: nat
  TgInterval :: nat

definition QueueSize :: nat where
  "QueueSize = 1000"

definition QueueEnabled :: "QueueConfig \<Rightarrow> platform \<Rightarrow> bool" where
  "QueueEnabled cfg p =
     (case p of WhatsApp \<Rightarrow> WhatsApp_QueueEnabled cfg | Telegram \<Rightarrow> Telegram_QueueEnabled cfg)"

definition Interval :: "QueueConfig \<Rightarrow> platform \<Rightarrow> nat" where
  "Interval cfg p = (case p of WhatsApp \<Rightarrow> WaInterval cfg | Telegram \<Rightarrow> TgInterval cfg)"

datatype ('w, 'r) job = Job (ch: nat) (fn: "'w \<Rightarrow> 'r \<times> 'w")

text \<open>
  Where the worker is in its loop: not launched yet, at the receive of
  \<^verbatim>\<open>for job := range ch\<close>, inside \<^verbatim>\<open>job()\<close>, or inside \<^verbatim>\<open>time.Sleep\<close>. Where a caller is
  in \<^verbatim>\<open>TgRun\<close>: not called yet, at the send \<^verbatim>\<open>tgJobCh <- closure\<close>, at the receive
  \<^verbatim>\<open>res := <-ch\<close>, or returned with its result; \<^verbatim>\<open>fn\<close> stays in the frame of the call.
\<close>

datatype ('w, 'r) worker = NotStarted | Receiving | Running "('w, 'r) job" | Sleeping

datatype ('w, 'r) caller =
    NotCalled
  | Sending "'w \<Rightarrow> 'r \<times> 'w"
  | Waiting "'w \<Rightarrow> 'r \<times> 'w"
  | Returned "'w \<Rightarrow> 'r \<times> 'w" 'r

text \<open>
  The history of a queue: a job entered the channel, the worker started a job, a job
  finished (in which client state it ran and what its function returned), the worker slept.
\<close>

datatype ('w, 'r) event = Submitted nat | Started nat | Finished nat 'w 'r | Slept nat

record ('w, 'r) queue =
  jobCh :: "('w, 'r) job list"
  worker :: "('w, 'r) worker"
  resultCh :: "nat \<Rightarrow> 'r list"
  callers :: "nat \<Rightarrow> ('w, 'r) caller"
  client :: 'w
  trace :: "('w, 'r) event list"

definition init :: "'w \<Rightarrow> ('w, 'r) queue" where
  "init w0 =
     \<lparr>jobCh = [], worker = NotStarted, resultCh = (\<lambda>i. []), callers = (\<lambda>i. NotCalled),
      client = w0, trace = []\<rparr>"

datatype ('w, 'r) action =
    StartWorkers
  | Call nat "'w \<Rightarrow> 'r \<times> 'w"
  | Enqueue nat
  | Receive
  | RunJob
  | Wake
  | Return nat

text \<open>\<^verbatim>\<open>go waWorker()\<close>, \<^verbatim>\<open>go tgWorker()\<close>: called once at startup.\<close>

definition start_workers :: "('w, 'r) queue \<Rightarrow> ('w, 'r) queue option" where
  "start_workers s =
     (case worker s of NotStarted \<Rightarrow> Some (s\<lparr>worker := Receiving\<rparr>) | _ \<Rightarrow> None)"

text \<open>The worker: \<^verbatim>\<open>for job := range ch { job(); if enabled { time.Sleep(interval) } }\<close>.\<close>

definition worker_receive :: "('w, 'r) queue \<Rightarrow> ('w, 'r) queue option" where
  "worker_receive s =
     (case worker s of
        Receiving \<Rightarrow>
          (case jobCh s of
             [] \<Rightarrow> None
           | j # js \<Rightarrow>
               Some (s\<lparr>jobCh := js, worker := Running j,
                        trace := trace s @ [Started (ch j)]\<rparr>))
      | _ \<Rightarrow> None)"

text \<open>
  The job body: \<^verbatim>\<open>v, e := fn(); ch <- result{v, e}\<close>. The send waits while the result
  channel, of capacity 1, is full.
\<close>

definition worker_run :: "QueueConfig \<Rightarrow> platform \<Rightarrow> ('w, 'r) queue \<Rightarrow> ('w, 'r) queue option" where
  "worker_run cfg p s =
     (case worker s of
        Running j \<Rightarrow>
          (if length (resultCh s (ch j)) < 1 then
             (case fn j (client s) of
                (r, w') \<Rightarrow>
                  Some (s\<lparr>client := w',
                           resultCh := (resultCh s)(ch j := resultCh s (ch j) @ [r]),
                           worker := (if QueueEnabled cfg p then Sleeping else Receiving),
                           trace := trace s @ [Finished (ch j) (client s) r]\<rparr>))
           else None)
      | _ \<Rightarrow> None)"

definition worker_wake :: "QueueConfig \<Rightarrow> platform \<Rightarrow> ('w, 'r) queue \<Rightarrow> ('w, 'r) queue option" where
  "worker_wake cfg p s =
     (case worker s of
        Sleeping \<Rightarrow> Some (s\<lparr>worker := Receiving, trace := trace s @ [Slept (Interval cfg p)]\<rparr>)
      | _ \<Rightarrow> None)"

text \<open>
  \<^verbatim>\<open>TgRun\<close> (and \<^verbatim>\<open>WaSend\<close>): \<^verbatim>\<open>ch := make(chan result, 1)\<close>, then the send of the
  closure on the job channel, which waits while the channel holds \<^verbatim>\<open>QueueSize\<close> jobs, then
  the receive on \<^verbatim>\<open>ch\<close>, which waits while it is empty, then the return of what was
  received.
\<close>

definition caller_call ::
  "nat \<Rightarrow> ('w \<Rightarrow> 'r \<times> 'w) \<Rightarrow> ('w, 'r) queue \<Rightarrow> ('w, 'r) queue option" where
  "caller_call i f s =
     (case callers s i of
        NotCalled \<Rightarrow>
          Some (s\<lparr>callers := (callers s)(i := Sending f), resultCh := (resultCh s)(i := [])\<rparr>)
      | _ \<Rightarrow> None)"

definition caller_enqueue :: "nat \<Rightarrow> ('w, 'r) queue \<Rightarrow> ('w, 'r) queue option" where
  "caller_enqueue i s =
     (case callers s i of
        Sending f \<Rightarrow>
          (if length (jobCh s) < QueueSize then
             Some (s\<lparr>jobCh := jobCh s @ [Job i f], callers := (callers s)(i := Waiting f),
                      trace := trace s @ [Submitted i]\<rparr>)
           else None)
      | _ \<Rightarrow> None)"

definition caller_return :: "nat \<Rightarrow> ('w, 'r) queue \<Rightarrow> ('w, 'r) queue option" where
  "caller_return i s =
     (case callers s i of
        Waiting f \<Rightarrow>
          (case resultCh s i of
             [] \<Rightarrow> None
           | r # rs \<Rightarrow>
               Some (s\<lparr>resultCh := (resultCh s)(i := rs),
                        callers := (callers s)(i := Returned f r)\<rparr>))
      | _ \<Rightarrow> None)"

fun step ::
  "QueueConfig \<Rightarrow> platform \<Rightarrow> ('w, 'r) action \<Rightarrow> ('w, 'r) queue \<Rightarrow> ('w, 'r) queue option" where
  "step cfg p StartWorkers s = start_workers s"
| "step cfg p (Call i f) s = caller_call i f s"
| "step cfg p (Enqueue i) s = caller_enqueue i s"
| "step cfg p Receive s = worker_receive s"
| "step cfg p RunJob s = worker_run cfg p s"
| "step cfg p Wake s = worker_wake cfg p s"
| "step cfg p (Return i) s = caller_return i s"

fun run ::
  "QueueConfig \<Rightarrow> platform \<Rightarrow> ('w, 'r) action list \<Rightarrow> ('w, 'r) queue
     \<Rightarrow> ('w, 'r) queue option" where
  "run cfg p [] s = Some s"
| "run cfg p (a # as) s = (case step cfg p a s of None \<Rightarrow> None | Some s' \<Rightarrow> run cfg p as s')"

text \<open>The readings of a history the properties are about.\<close>

fun submitted :: "('w, 'r) event list \<Rightarrow> nat list" where
  "submitted [] = []"
| "submitted (Submitted i # es) = i # submitted es"
| "submitted (e # es) = submitted es"

fun started :: "('w, 'r) event list \<Rightarrow> nat list" where
  "started [] = []"
| "started (Started i # es) = i # started es"
| "started (e # es) = started es"

fun finished :: "('w, 'r) event list \<Rightarrow> nat list" where
  "finished [] = []"
| "finished (Finished i w r # es) = i # finished es"
| "finished (e # es) = finished es"

text \<open>The jobs that are executing after a history: started and not finished.\<close>

definition executing :: "('w, 'r) event list \<Rightarrow> nat list" where
  "executing es = filter (\<lambda>i. i \<notin> set (finished es)) (started es)"

text \<open>The function in the frame of a call, once it has been made.\<close>

definition frame_fn :: "('w, 'r) caller \<Rightarrow> ('w \<Rightarrow> 'r \<times> 'w) option" where
  "frame_fn c =
     (case c of NotCalled \<Rightarrow> None | Sending f \<Rightarrow> Some f | Waiting f \<Rightarrow> Some f
      | Returned f r \<Rightarrow> Some f)"

text \<open>
  What holds of every state a run reaches. The job channel is within its capacity; the
  jobs that entered it are, in order, those the worker has started followed by those still
  in it; the jobs started are, in order, those finished followed by the one the worker is
  inside, if any; no call enters the channel twice; the calls that entered it are those at
  their receive or returned; a job in the channel or in the worker is the job of a caller at
  its receive; a result channel that is not empty holds the one result of the finished job
  of a caller at its receive; a caller that returned holds a result its function gave to the
  worker; the caller of a finished job has its result in the channel or has returned.
\<close>

definition current :: "('w, 'r) worker \<Rightarrow> nat list" where
  "current wk = (case wk of Running j \<Rightarrow> [ch j] | _ \<Rightarrow> [])"

definition entered :: "('w, 'r) caller \<Rightarrow> bool" where
  "entered c = (case c of Waiting f \<Rightarrow> True | Returned f r \<Rightarrow> True | _ \<Rightarrow> False)"

definition inv_cap :: "('w, 'r) queue \<Rightarrow> bool" where
  "inv_cap s \<longleftrightarrow> length (jobCh s) \<le> QueueSize"

definition inv_fifo :: "('w, 'r) queue \<Rightarrow> bool" where
  "inv_fifo s \<longleftrightarrow> submitted (trace s) = started (trace s) @ map ch (jobCh s)"

definition inv_serial :: "('w, 'r) queue \<Rightarrow> bool" where
  "inv_serial s \<longleftrightarrow> started (trace s) = finished (trace s) @ current (worker s)"

definition inv_once :: "('w, 'r) queue \<Rightarrow> bool" where
  "inv_once s \<longleftrightarrow> distinct (submitted (trace s))"

definition inv_entered :: "('w, 'r) queue \<Rightarrow> bool" where
  "inv_entered s \<longleftrightarrow> (\<forall>i. i \<in> set (submitted (trace s)) \<longleftrightarrow> entered (callers s i))"

definition inv_jobs :: "('w, 'r) queue \<Rightarrow> bool" where
  "inv_jobs s \<longleftrightarrow>
     (\<forall>j. j \<in> set (jobCh s) \<or> worker s = Running j \<longrightarrow> callers s (ch j) = Waiting (fn j))"

definition inv_results :: "('w, 'r) queue \<Rightarrow> bool" where
  "inv_results s \<longleftrightarrow>
     (\<forall>i. resultCh s i \<noteq> [] \<longrightarrow>
        (\<exists>f w. callers s i = Waiting f \<and> resultCh s i = [fst (f w)]
               \<and> Finished i w (fst (f w)) \<in> set (trace s)))"

definition inv_returned :: "('w, 'r) queue \<Rightarrow> bool" where
  "inv_returned s \<longleftrightarrow>
     (\<forall>i f r. callers s i = Returned f r \<longrightarrow>
        (\<exists>w. r = fst (f w) \<and> Finished i w r \<in> set (trace s)))"

definition inv_delivered :: "('w, 'r) queue \<Rightarrow> bool" where
  "inv_delivered s \<longleftrightarrow>
     (\<forall>i. i \<in> set (finished (trace s)) \<longrightarrow>
        (\<exists>f. callers s i = Waiting f \<and> resultCh s i \<noteq> []) \<or> (\<exists>f r. callers s i = Returned f r))"

definition queue_inv :: "('w, 'r) queue \<Rightarrow> bool" where
  "queue_inv s \<longleftrightarrow>
     inv_cap s \<and> inv_fifo s \<and> inv_serial s \<and> inv_once s \<and> inv_entered s \<and> inv_jobs s
     \<and> inv_results s \<and> inv_returned s \<and> inv_delivered s"

subsection \<open>Sample configuration, functions and schedules\<close>

definition sample_cfg :: QueueConfig where
  "sample_cfg =
     \<lparr>WhatsApp_QueueEnabled = False, Telegram_QueueEnabled = True,
      WaInterval = 0, TgInterval = 50\<rparr>"

definition fn42 :: "nat \<Rightarrow> (int \<times> string option) \<times> nat" where
  "fn42 w = ((42, None), Suc w)"

definition fn_fails :: "nat \<Rightarrow> (int \<times> string option) \<times> nat" where
  "fn_fails w = ((0, Some ''Too Many Requests''), w)"

definition two_callers :: "(nat, int \<times> string option) action list" where
  "two_callers =
     [StartWorkers, Call 0 fn42, Call 1 fn_fails, Enqueue 1, Enqueue 0, Receive, RunJob, Wake,
      Receive, Return 1, RunJob, Return 0]"

definition one_call :: "(nat, int \<times> string option) action list" where
  "one_call = [StartWorkers, Call 0 fn42, Enqueue 0, Receive, RunJob, Wake, Return 0]"

definition calls :: "nat \<Rightarrow> ('w \<Rightarrow> 'r \<times> 'w) \<Rightarrow> ('w, 'r) action list" where
  "calls n f = map (\<lambda>i. Call i f) [0..<n]"

definition enqueues :: "nat \<Rightarrow> ('w, 'r) action list" where
  "enqueues n = map Enqueue [0..<n]"

text \<open>
  The state after \<open>m\<close> callers have entered \<^verbatim>\<open>TgRun\<close> with the function \<open>f\<close> and the first
  \<open>n\<close> of them have sent their job, the worker not launched.
\<close>

definition filled :: "nat \<Rightarrow> nat \<Rightarrow> ('w \<Rightarrow> 'r \<times> 'w) \<Rightarrow> 'w \<Rightarrow> ('w, 'r) queue" where
  "filled m n f w0 =
     \<lparr>jobCh = map (\<lambda>i. Job i f) [0..<n], worker = NotStarted, resultCh = (\<lambda>i. []),
      callers = (\<lambda>i. if i < n then Waiting f else if i < m then Sending f else NotCalled),
      client = w0, trace = map Submitted [0..<n]\<rparr>"

section \<open>Properties of the probe classification\<close>

text \<open>
  Reading a text rune by rune: an ASCII byte is a rune of its own, so on ASCII text the
  runes are the bytes; a two-byte sequence is one rune.
\<close>

declare runes.simps(2) [simp del]

lemma DecodeRune_ascii:
  "(of_char c :: nat) < 128 \<Longrightarrow> DecodeRune (c # cs) = (of_char c, 1)"
  by (simp add: DecodeRune_def)

lemma runes_ascii_Cons:
  "(of_char c :: nat) < 128 \<Longrightarrow> runes (c # cs) = of_char c # runes cs"
  by (simp add: runes.simps(2) DecodeRune_ascii)

lemma runes_isASCII: "isASCII s \<Longrightarrow> runes s = map of_char s"
  by (induction s) (simp_all add: isASCII_def runes_ascii_Cons)

lemma DecodeRune_two:
  assumes "194 \<le> (of_char c0 :: nat)" "(of_char c0 :: nat) < 224"
    and "128 \<le> (of_char c1 :: nat)" "(of_char c1 :: nat) \<le> 191"
  shows "DecodeRune (c0 # c1 # cs)
           = (((of_char c0 :: nat) mod 32) * 64 + (of_char c1 :: nat) mod 64, 2)"
  using assms by (simp add: DecodeRune_def Let_def)

lemma runes_two:
  assumes "194 \<le> (of_char c0 :: nat)" "(of_char c0 :: nat) < 224"
    and "128 \<le> (of_char c1 :: nat)" "(of_char c1 :: nat) \<le> 191"
  shows "runes (c0 # c1 # cs)
           = (((of_char c0 :: nat) mod 32) * 64 + (of_char c1 :: nat) mod 64) # runes cs"
  by (simp add: runes.simps(2) DecodeRune_two [OF assms])

lemma runes_dotless_i: "runes (CHR 0xC4 # CHR 0xB1 # cs) = 305 # runes cs"
  by (subst runes_two) simp_all

lemma runes_long_s: "runes (CHR 0xC5 # CHR 0xBF # cs) = 383 # runes cs"
  by (subst runes_two) simp_all

lemma runes_invalid:
  assumes "128 \<le> (of_char c :: nat)" "(of_char c :: nat) < 194 \<or> 244 < (of_char c :: nat)"
  shows "runes (c # cs) = RuneError # runes cs"
  using assms by (auto simp: runes.simps(2) DecodeRune_def)

lemmas eval_runes = runes_ascii_Cons runes_dotless_i runes_long_s runes_invalid RuneError_def

lemma EncodeRune_ascii: "r \<le> 127 \<Longrightarrow> EncodeRune r = [char_of r]"
  by (simp add: EncodeRune_def)

lemma of_char_char_of_less: "n < 256 \<Longrightarrow> (of_char (char_of (n :: nat)) :: nat) = n"
  by simp

lemma EncodeRune_non_ascii:
  assumes "128 \<le> r"
  shows "EncodeRune r \<noteq> [] \<and> (\<forall>b\<in>set (EncodeRune r). 128 \<le> (of_char b :: nat))"
proof -
  have c: "128 \<le> (of_char (char_of (128 + n mod 64 :: nat)) :: nat)" for n
  proof -
    have "128 + n mod 64 < (256 :: nat)"
      by (simp add: add.commute less_diff_conv) 
    then show ?thesis
      by (simp only: of_char_char_of_less)
  qed
  have l: "k \<le> 63 \<Longrightarrow> 128 \<le> (of_char (char_of (192 + k :: nat)) :: nat)" for k
  proof -
    assume "k \<le> 63"
    then have "192 + k < (256 :: nat)"
      by simp
    then show ?thesis
      by (simp only: of_char_char_of_less)
  qed
  consider "r \<le> 2047" | "2047 < r" "1114111 < r \<or> (55296 \<le> r \<and> r \<le> 57343)"
    | "2047 < r" "\<not> (1114111 < r \<or> (55296 \<le> r \<and> r \<le> 57343))" "r \<le> 65535"
    | "65535 < r" "r \<le> 1114111"
    by linarith
  then show ?thesis
  proof cases
    case 1
    then have "r div 64 \<le> 63"
      by simp
    with 1 assms l [of "r div 64"] c [of r] show ?thesis
      by (simp add: EncodeRune_def)
  next
    case 2
    with assms show ?thesis
      by (simp add: EncodeRune_def)
  next
    case 3
    then have "32 + r div 4096 \<le> 63"
      by simp
    from l [OF this] have "128 \<le> (of_char (char_of (224 + r div 4096)) :: nat)"
      by (simp add: add.assoc [symmetric])
    with 3 assms c [of r] c [of "r div 64"] show ?thesis
      by (simp add: EncodeRune_def)
  next
    case 4
    then have "48 + r div 262144 \<le> 63"
      by simp
    from l [OF this] have "128 \<le> (of_char (char_of (240 + r div 262144)) :: nat)"
      by (simp add: add.assoc [symmetric])
    with 4 assms c [of r] c [of "r div 64"] c [of "r div 4096"] show ?thesis
      by (simp add: EncodeRune_def)
  qed
qed

text \<open>
  Upper-casing is rune by rune on every text, the ASCII loop being the same map. The
  bytes of a rune above U+007F are all above \<^verbatim>\<open>0x7F\<close>, so an ASCII pattern occurs in the
  bytes written for a list of runes exactly where its letters occur among the runes.
\<close>

lemma Contains_sublist: "Contains s substr \<longleftrightarrow> sublist substr s"
  by (induction s) (auto simp: sublist_Cons_right)

lemma EncodeRune_upper_ascii:
  assumes "(of_char c :: nat) < 128"
  shows "EncodeRune (unicode_ToUpper up (of_char c)) = [upper_byte c]"
proof -
  let ?n = "of_char c :: nat"
  have "?n - 32 \<le> 127"
    using assms by arith
  with assms have "unicode_ToUpper up ?n \<le> 127"
    by (simp add: unicode_ToUpper_def)
  then have "EncodeRune (unicode_ToUpper up ?n) = [char_of (unicode_ToUpper up ?n)]"
    by (rule EncodeRune_ascii)
  also have "char_of (unicode_ToUpper up ?n) = upper_byte c"
    using assms by (auto simp: unicode_ToUpper_def upper_byte_def Let_def)
  finally show ?thesis .
qed

lemma ToUpper_runes:
  "ToUpper up s = concat (map (\<lambda>r. EncodeRune (unicode_ToUpper up r)) (runes s))"
proof (cases "isASCII s")
  case True
  have "list_all (\<lambda>c. (of_char c :: nat) < 128) t \<Longrightarrow>
          map upper_byte t
            = concat (map (\<lambda>c. EncodeRune (unicode_ToUpper up (of_char c))) t)" for t
    by (induction t) (simp_all add: EncodeRune_upper_ascii)
  with True show ?thesis
    by (simp add: ToUpper_def runes_isASCII isASCII_def o_def)
next
  case False
  then show ?thesis
    by (simp add: ToUpper_def Map_def)
qed

lemma prefix_encode:
  assumes "isASCII P"
  shows "prefix P (concat (map EncodeRune rs)) \<longleftrightarrow> prefix (map of_char P) rs"
  using assms
proof (induction rs arbitrary: P)
  case Nil
  then show ?case by simp
next
  case (Cons r rs)
  show ?case
  proof (cases P)
    case Nil
    then show ?thesis by simp
  next
    case P: (Cons c P')
    with Cons.prems have c: "(of_char c :: nat) < 128" and P': "isASCII P'"
      by (simp_all add: isASCII_def)
    show ?thesis
    proof (cases "r \<le> 127")
      case True
      then have "c = char_of r \<longleftrightarrow> (of_char c :: nat) = r"
        by auto
      with True Cons.IH [OF P'] show ?thesis
        by (simp add: P EncodeRune_ascii)
    next
      case False
      then have r: "128 \<le> r" by simp
      from EncodeRune_non_ascii [OF r] obtain b bs
        where b: "EncodeRune r = b # bs" "128 \<le> (of_char b :: nat)"
        by (cases "EncodeRune r") auto
      with c have "c \<noteq> b" by auto
      moreover from c r have "(of_char c :: nat) \<noteq> r" by simp
      ultimately show ?thesis
        by (simp add: P b(1))
    qed
  qed
qed

lemma sublist_skip_non_ascii:
  assumes "isASCII P" "P \<noteq> []" "\<forall>b\<in>set bs. 128 \<le> (of_char b :: nat)"
  shows "sublist P (bs @ ys) \<longleftrightarrow> sublist P ys"
  using assms(3)
proof (induction bs)
  case Nil
  then show ?case by simp
next
  case (Cons b bs)
  from assms(1,2) obtain c P' where P: "P = c # P'" and c: "(of_char c :: nat) < 128"
    by (cases P) (auto simp: isASCII_def)
  from Cons.prems c have "c \<noteq> b" by auto
  with Cons show ?case
    by (simp add: sublist_Cons_right P)
qed

lemma sublist_encode:
  assumes "isASCII P"
  shows "sublist P (concat (map EncodeRune rs)) \<longleftrightarrow> sublist (map of_char P) rs"
proof (cases "P = []")
  case True
  then show ?thesis by simp
next
  case False
  with assms obtain c P' where P: "P = c # P'" and c: "(of_char c :: nat) < 128"
    by (cases P) (auto simp: isASCII_def)
  show ?thesis
  proof (induction rs)
    case Nil
    then show ?case by (simp add: P)
  next
    case (Cons r rs)
    show ?case
    proof (cases "r \<le> 127")
      case True
      have "sublist P (concat (map EncodeRune (r # rs)))
              \<longleftrightarrow> prefix P (concat (map EncodeRune (r # rs)))
                   \<or> sublist P (concat (map EncodeRune rs))"
        using True by (simp add: EncodeRune_ascii sublist_Cons_right)
      then show ?thesis
        using Cons.IH prefix_encode [OF assms, of "r # rs"]
        by (simp only: sublist_Cons_right [of "map of_char P" r rs])
    next
      case False
      then have r: "128 \<le> r" by simp
      from EncodeRune_non_ascii [OF r]
      have "sublist P (EncodeRune r @ concat (map EncodeRune rs))
              \<longleftrightarrow> sublist P (concat (map EncodeRune rs))"
        using sublist_skip_non_ascii [OF assms \<open>P \<noteq> []\<close>] by blast
      moreover from c r have "\<not> prefix (map of_char P) (r # rs)"
        by (simp add: P)
      ultimately show ?thesis
        using Cons.IH by (simp add: sublist_Cons_right)
    qed
  qed
qed

lemma sublist_map_iff:
  "sublist p (map f xs) \<longleftrightarrow> (\<exists>u. sublist u xs \<and> map f u = p)"
  by (auto simp: sublist_def map_eq_append_conv append_eq_map_conv) blast+

lemma upper_pattern_rune:
  assumes "(of_char b :: nat) < 128" "\<not> (97 \<le> (of_char b :: nat) \<and> (of_char b :: nat) \<le> 122)"
  shows "unicode_ToUpper up (of_char b) = of_char b"
  using assms by (auto simp: unicode_ToUpper_def)

lemma map_upper_eq_iff:
  assumes "isASCII p" "no_lower p"
  shows "map (unicode_ToUpper up) u = map of_char p
           \<longleftrightarrow> list_all2 (same_letter up) u (map of_char p)"
  using assms
proof (induction u arbitrary: p)
  case Nil
  then show ?case by auto
next
  case (Cons a u)
  then show ?case
    by (cases p) (auto simp: isASCII_def no_lower_def same_letter_def upper_pattern_rune)
qed

lemma contains_ci_iff:
  "contains_ci up txt pat
     \<longleftrightarrow> (\<exists>u. sublist u (runes txt) \<and> list_all2 (same_letter up) u (runes pat))"
proof
  assume "contains_ci up txt pat"
  then obtain y where y: "suffix y (runes txt)"
      "list_all2 (same_letter up) (take (length (runes pat)) y) (runes pat)"
    by (auto simp: contains_ci_def list_ex_iff)
  have "sublist (take (length (runes pat)) y) (runes txt)"
    using y(1) take_is_prefix sublist_altdef' by blast
  with y(2) show "\<exists>u. sublist u (runes txt) \<and> list_all2 (same_letter up) u (runes pat)"
    by blast
next
  assume "\<exists>u. sublist u (runes txt) \<and> list_all2 (same_letter up) u (runes pat)"
  then obtain u y where u: "list_all2 (same_letter up) u (runes pat)"
      "suffix y (runes txt)" "prefix u y"
    by (auto simp: sublist_altdef')
  from u(1) have "length u = length (runes pat)"
    by (rule list_all2_lengthD)
  with u(3) have "take (length (runes pat)) y = u"
    by (auto simp: prefix_def)
  with u show "contains_ci up txt pat"
    by (auto simp: contains_ci_def list_ex_iff)
qed

lemma Contains_ToUpper:
  assumes "isASCII p" "no_lower p"
  shows "Contains (ToUpper up e) p \<longleftrightarrow> contains_ci up e p"
proof -
  have "Contains (ToUpper up e) p
          \<longleftrightarrow> sublist p (concat (map EncodeRune (map (unicode_ToUpper up) (runes e))))"
    by (simp add: Contains_sublist ToUpper_runes o_def)
  also have "\<dots> \<longleftrightarrow> sublist (map of_char p) (map (unicode_ToUpper up) (runes e))"
    by (rule sublist_encode [OF assms(1)])
  also have "\<dots> \<longleftrightarrow> (\<exists>u. sublist u (runes e) \<and> map (unicode_ToUpper up) u = map of_char p)"
    by (rule sublist_map_iff)
  also have "\<dots> \<longleftrightarrow> (\<exists>u. sublist u (runes e) \<and> list_all2 (same_letter up) u (map of_char p))"
    by (simp only: map_upper_eq_iff [OF assms])
  also have "\<dots> \<longleftrightarrow> contains_ci up e p"
    by (simp add: contains_ci_iff runes_isASCII [OF assms(1)])
  finally show ?thesis .
qed

lemma ascii_patterns:
  "isASCII ''TOPIC_NOT_FOUND''" "isASCII ''TOPIC_ID_INVALID''"
  "isASCII ''MESSAGE_THREAD_INVALID''" "isASCII ''TOPIC_NOT_MODIFIED''"
  by (simp_all add: isASCII_def)

lemma no_lower_patterns:
  "no_lower ''TOPIC_NOT_FOUND''" "no_lower ''TOPIC_ID_INVALID''"
  "no_lower ''MESSAGE_THREAD_INVALID''" "no_lower ''TOPIC_NOT_MODIFIED''"
  by (simp_all add: no_lower_def)

lemmas eval_upper = ToUpper_def isASCII_def upper_byte_def char_of_def bit_Suc_0_iff

lemmas eval_ci = contains_ci_def same_letter_def unicode_ToUpper_def runes_isASCII isASCII_def

text \<open>
  C3. The branch taken for a probe error is a case-insensitive substring match on the error
  text: \<^verbatim>\<open>nil\<close> is \<^const>\<open>Exists\<close>; a text containing one of \<^verbatim>\<open>TOPIC_NOT_FOUND\<close>,
  \<^verbatim>\<open>TOPIC_ID_INVALID\<close>, \<^verbatim>\<open>MESSAGE_THREAD_INVALID\<close> is \<^const>\<open>NotFound\<close>; a text
  containing \<^verbatim>\<open>TOPIC_NOT_MODIFIED\<close> and none of those is \<^const>\<open>Unchanged\<close>; every other
  error is \<^const>\<open>Exists\<close>. Letters are compared by their upper-case forms, whatever the
  case table of the library is.
\<close>

theorem classify_is_case_insensitive_match: "classify up err = classify_spec up err"
  by (cases err)
     (simp_all add: classify_def classify_spec_def isTopicNotFound_def isTopicNotModified_def
        Contains_ToUpper ascii_patterns no_lower_patterns)

theorem classify_witness:
  "classify upper_table (Some ''Bad Request: topic_not_found'') = NotFound
   \<and> classify upper_table (Some ''Topic_Id_Invalid'') = NotFound
   \<and> classify upper_table (Some ''message_thread_invalid!'') = NotFound
   \<and> classify upper_table (Some ''Bad Request: TOPIC_NOT_MODIFIED'') = Unchanged
   \<and> classify upper_table None = Exists
   \<and> classify upper_table (Some ''Too Many Requests'') = Exists
   \<and> classify upper_table (Some (''Bad Request: top'' @ dotless_i @ ''c_not_found'')) = NotFound
   \<and> classify upper_table (Some (''Bad Request: TOPIC'' @ [CHR 0xFF] @ ''_NOT_FOUND'')) = Exists"
proof -
  have ascii: "classify upper_table (Some ''Bad Request: topic_not_found'') = NotFound
      \<and> classify upper_table (Some ''Topic_Id_Invalid'') = NotFound
      \<and> classify upper_table (Some ''message_thread_invalid!'') = NotFound
      \<and> classify upper_table (Some ''Bad Request: TOPIC_NOT_MODIFIED'') = Unchanged
      \<and> classify upper_table None = Exists
      \<and> classify upper_table (Some ''Too Many Requests'') = Exists"
    using classify_is_case_insensitive_match [of upper_table "Some ''Bad Request: topic_not_found''"]
      classify_is_case_insensitive_match [of upper_table "Some ''Topic_Id_Invalid''"]
      classify_is_case_insensitive_match [of upper_table "Some ''message_thread_invalid!''"]
      classify_is_case_insensitive_match [of upper_table "Some ''Bad Request: TOPIC_NOT_MODIFIED''"]
      classify_is_case_insensitive_match [of upper_table None]
      classify_is_case_insensitive_match [of upper_table "Some ''Too Many Requests''"]
    by (simp add: classify_spec_def eval_ci)
  have other: "classify upper_table (Some (''Bad Request: top'' @ dotless_i @ ''c_not_found''))
        = NotFound
      \<and> classify upper_table (Some (''Bad Request: TOPIC'' @ [CHR 0xFF] @ ''_NOT_FOUND''))
        = Exists"
    using classify_is_case_insensitive_match
        [of upper_table "Some (''Bad Request: top'' @ dotless_i @ ''c_not_found'')"]
      classify_is_case_insensitive_match
        [of upper_table "Some (''Bad Request: TOPIC'' @ [CHR 0xFF] @ ''_NOT_FOUND'')"]
    by (simp add: classify_spec_def contains_ci_def same_letter_def unicode_ToUpper_def
        dotless_i_def eval_runes upper_table_def)
  from ascii other show ?thesis
    by simp
qed

text \<open>
  The earlier copy in package \<^verbatim>\<open>utils\<close>: what it takes for a not-found error the
  scheduler's function does too, and the two differ on \<^verbatim>\<open>TOPIC_ID_INVALID\<close>.
\<close>

lemma isTopicNotFound_utils_imp: "isTopicNotFound_utils up err \<Longrightarrow> isTopicNotFound up err"
  by (auto simp: isTopicNotFound_utils_def isTopicNotFound_def Let_def split: option.splits)

lemma isTopicNotFound_utils_differs:
  "isTopicNotFound up (Some ''Bad Request: TOPIC_ID_INVALID'')
   \<and> \<not> isTopicNotFound_utils up (Some ''Bad Request: TOPIC_ID_INVALID'')"
  by (simp add: isTopicNotFound_utils_def isTopicNotFound_def eval_upper)

section \<open>Properties of the reconciliation tick\<close>

lemma emit_simps [simp]:
  "db (emit es s) = db s" "effects (emit es s) = effects s @ es"
  by (simp_all add: emit_def)

lemma delete_msgs_db:
  "chat_thread_pairs (db (delete_msgs w c t s)) = chat_thread_pairs (db s)"
  "msg_id_pairs (db (delete_msgs w c t s))
     = filter (\<lambda>m. \<not> (delete_msgs_error w c t = None \<and> MsgTgChatId m = c \<and> MsgTgThreadId m = t))
         (msg_id_pairs (db s))"
  by (simp_all add: delete_msgs_def MsgIdDeletePairsByThreadId_def Let_def split: option.splits)

lemma delete_msgs_effects:
  "effects (delete_msgs w c t s)
     = effects s @ DeleteMsgs c t #
         (case delete_msgs_error w c t of
            None \<Rightarrow> []
          | Some e \<Rightarrow> [Log Error ''[scheduler] failed to delete msg_id_pairs for deleted topic''
                        [Int64 ''tg_thread_id'' t, Err e]])"
  by (simp add: delete_msgs_def MsgIdDeletePairsByThreadId_def Let_def split: option.splits)

lemma drop_pair_db:
  "msg_id_pairs (db (drop_pair w c t s)) = msg_id_pairs (db s)"
  "chat_thread_pairs (db (drop_pair w c t s))
     = filter (\<lambda>q. \<not> (drop_pair_error w c t = None \<and> TgChatId q = c \<and> TgThreadId q = t))
         (chat_thread_pairs (db s))"
  by (simp_all add: drop_pair_def ChatThreadDropPairByTg_def Let_def split: option.splits)

lemma drop_pair_effects:
  "effects (drop_pair w c t s)
     = effects s @ DropPair c t #
         (case drop_pair_error w c t of
            None \<Rightarrow> []
          | Some e \<Rightarrow> [Log Error ''[scheduler] failed to delete chat_thread_pairs for deleted topic''
                        [Int64 ''tg_thread_id'' t, Err e]])"
  by (simp add: drop_pair_def ChatThreadDropPairByTg_def Let_def split: option.splits)

lemma loop_body_effects:
  "effects (loop_body w c ps s p)
     = effects s @
       (if sint (TgThreadId p) \<le> 1 then []
        else Probe c (TgThreadId p) #
          (case classify (UpperCase w) (ReopenForumTopic w c (TgThreadId p)) of
             Exists \<Rightarrow> []
           | Unchanged \<Rightarrow> [Resync c ps]
           | NotFound \<Rightarrow>
               Log Info ''[scheduler] detected deleted Telegram topic, cleaning up''
                 [Int64 ''tg_chat_id'' c, Int64 ''tg_thread_id'' (TgThreadId p),
                  Str ''wa_chat_id'' (ID p)] #
               DeleteMsgs c (TgThreadId p) #
               (case delete_msgs_error w c (TgThreadId p) of
                  None \<Rightarrow> []
                | Some e \<Rightarrow>
                    [Log Error ''[scheduler] failed to delete msg_id_pairs for deleted topic''
                       [Int64 ''tg_thread_id'' (TgThreadId p), Err e]]) @
               DropPair c (TgThreadId p) #
               (case drop_pair_error w c (TgThreadId p) of
                  None \<Rightarrow> []
                | Some e \<Rightarrow>
                    [Log Error ''[scheduler] failed to delete chat_thread_pairs for deleted topic''
                       [Int64 ''tg_thread_id'' (TgThreadId p), Err e]])))"
  by (simp add: loop_body_def Let_def classify_def delete_msgs_effects drop_pair_effects)

lemma loop_body_row_effects:
  "effects (loop_body w c ps s p) = effects s @ row_effects w c ps p"
  by (simp add: row_effects_def loop_body_effects)

lemma loop_body_pairs:
  "chat_thread_pairs (db (loop_body w c ps s p))
     = filter (\<lambda>q. \<not> drops_pair w c p q) (chat_thread_pairs (db s))"
  by (simp add: loop_body_def Let_def classify_def doomed_def drops_pair_def
      drop_pair_db delete_msgs_db)

lemma loop_body_msgs:
  "msg_id_pairs (db (loop_body w c ps s p))
     = filter (\<lambda>m. \<not> deletes_msg w c p m) (msg_id_pairs (db s))"
  by (simp add: loop_body_def Let_def classify_def doomed_def deletes_msg_def
      drop_pair_db delete_msgs_db)

lemma foldl_loop_effects:
  "effects (foldl (loop_body w c ps) s qs) = effects s @ concat (map (row_effects w c ps) qs)"
  by (induction qs arbitrary: s) (simp_all add: loop_body_row_effects)

lemma foldl_loop_pairs:
  "chat_thread_pairs (db (foldl (loop_body w c ps) s qs))
     = filter (\<lambda>q. \<not> list_ex (\<lambda>p. drops_pair w c p q) qs) (chat_thread_pairs (db s))"
  by (induction qs arbitrary: s) (simp_all add: loop_body_pairs)

lemma foldl_loop_msgs:
  "msg_id_pairs (db (foldl (loop_body w c ps) s qs))
     = filter (\<lambda>m. \<not> list_ex (\<lambda>p. deletes_msg w c p m) qs) (msg_id_pairs (db s))"
  by (induction qs arbitrary: s) (simp_all add: loop_body_msgs)

lemma tick_pairs:
  "chat_thread_pairs (db (cleanupDeletedTopics w d))
     = filter (\<lambda>q. \<not> list_ex (\<lambda>p. drops_pair w (TargetChatID w) p q) (visited w d))
         (chat_thread_pairs d)"
  by (simp add: cleanupDeletedTopics_def visited_def Let_def foldl_loop_pairs
      split: option.splits sum.splits)

lemma tick_msgs:
  "msg_id_pairs (db (cleanupDeletedTopics w d))
     = filter (\<lambda>m. \<not> list_ex (\<lambda>p. deletes_msg w (TargetChatID w) p m) (visited w d))
         (msg_id_pairs d)"
  by (simp add: cleanupDeletedTopics_def visited_def Let_def foldl_loop_msgs
      split: option.splits sum.splits)

lemma tick_effects:
  "effects (cleanupDeletedTopics w d)
     = (if \<not> TelegramBot w then []
        else SyncContacts #
          (case WaSyncContacts w of
             None \<Rightarrow> []
           | Some e \<Rightarrow> [Log Error ''[scheduler] failed to sync WhatsApp contacts'' [Err e]]) @
          ReadPairs (TargetChatID w) #
          (case get_pairs_error w (TargetChatID w) of
             None \<Rightarrow> []
           | Some e \<Rightarrow>
               [Log Error ''[scheduler] failed to fetch chat_thread_pairs for topic cleanup''
                  [Err e]]) @
          concat (map (row_effects w (TargetChatID w) (visited w d)) (visited w d)))"
  by (simp add: cleanupDeletedTopics_def visited_def Let_def foldl_loop_effects
      ChatThreadGetAllPairs_def split: option.splits sum.splits)

lemma visited_eq:
  "TelegramBot w \<Longrightarrow> get_pairs_error w (TargetChatID w) = None \<Longrightarrow>
   visited w d = filter (\<lambda>p. TgChatId p = TargetChatID w) (chat_thread_pairs d)"
  by (simp add: visited_def ChatThreadGetAllPairs_def)

lemma row_effects_eq:
  "row_effects w c ps p
     = (if sint (TgThreadId p) \<le> 1 then []
        else Probe c (TgThreadId p) #
          (case classify (UpperCase w) (ReopenForumTopic w c (TgThreadId p)) of
             Exists \<Rightarrow> []
           | Unchanged \<Rightarrow> [Resync c ps]
           | NotFound \<Rightarrow>
               Log Info ''[scheduler] detected deleted Telegram topic, cleaning up''
                 [Int64 ''tg_chat_id'' c, Int64 ''tg_thread_id'' (TgThreadId p),
                  Str ''wa_chat_id'' (ID p)] #
               DeleteMsgs c (TgThreadId p) #
               (case delete_msgs_error w c (TgThreadId p) of
                  None \<Rightarrow> []
                | Some e \<Rightarrow>
                    [Log Error ''[scheduler] failed to delete msg_id_pairs for deleted topic''
                       [Int64 ''tg_thread_id'' (TgThreadId p), Err e]]) @
               DropPair c (TgThreadId p) #
               (case drop_pair_error w c (TgThreadId p) of
                  None \<Rightarrow> []
                | Some e \<Rightarrow>
                    [Log Error ''[scheduler] failed to delete chat_thread_pairs for deleted topic''
                       [Int64 ''tg_thread_id'' (TgThreadId p), Err e]])))"
  by (simp add: row_effects_def loop_body_effects)

text \<open>Which calls an iteration makes, by the outcome of its probe.\<close>

lemma Probe_in_row_effects:
  "Probe c' t \<in> set (row_effects w c ps p)
     \<longleftrightarrow> c' = c \<and> t = TgThreadId p \<and> \<not> sint (TgThreadId p) \<le> 1"
  by (auto simp: row_effects_eq split: ProbeOutcome.splits option.splits)

lemma DeleteMsgs_in_row_effects:
  "DeleteMsgs c' t \<in> set (row_effects w c ps p)
     \<longleftrightarrow> c' = c \<and> t = TgThreadId p \<and> doomed w c p"
  by (auto simp: row_effects_eq doomed_def split: ProbeOutcome.splits option.splits)

lemma DropPair_in_row_effects:
  "DropPair c' t \<in> set (row_effects w c ps p)
     \<longleftrightarrow> c' = c \<and> t = TgThreadId p \<and> doomed w c p"
  by (auto simp: row_effects_eq doomed_def split: ProbeOutcome.splits option.splits)

lemma Resync_in_row_effects:
  "Resync c' ps' \<in> set (row_effects w c ps p)
     \<longleftrightarrow> c' = c \<and> ps' = ps \<and> \<not> sint (TgThreadId p) \<le> 1
         \<and> classify (UpperCase w) (ReopenForumTopic w c (TgThreadId p)) = Unchanged"
  by (auto simp: row_effects_eq split: ProbeOutcome.splits option.splits)

lemma in_tick_effects:
  assumes "e \<noteq> SyncContacts" "\<not> is_log e" "e \<noteq> ReadPairs (TargetChatID w)"
  shows "e \<in> set (effects (cleanupDeletedTopics w d))
     \<longleftrightarrow> (\<exists>p\<in>set (visited w d). e \<in> set (row_effects w (TargetChatID w) (visited w d) p))"
proof (cases "TelegramBot w")
  case False
  then show ?thesis
    by (simp add: tick_effects visited_def)
next
  case True
  have "e \<notin> set (case WaSyncContacts w of
             None \<Rightarrow> []
           | Some e \<Rightarrow> [Log Error ''[scheduler] failed to sync WhatsApp contacts'' [Err e]])"
    using assms(2) by (auto simp: is_log_def split: option.splits)
  moreover have "e \<notin> set (case get_pairs_error w (TargetChatID w) of
             None \<Rightarrow> []
           | Some e \<Rightarrow>
               [Log Error ''[scheduler] failed to fetch chat_thread_pairs for topic cleanup''
                  [Err e]])"
    using assms(2) by (auto simp: is_log_def split: option.splits)
  ultimately show ?thesis
    using True assms(1,3) by (simp add: tick_effects) blast
qed

lemma classify_NotFound_iff:
  "classify up (Some e) = NotFound
     \<longleftrightarrow> contains_ci up e ''TOPIC_NOT_FOUND'' \<or> contains_ci up e ''TOPIC_ID_INVALID''
         \<or> contains_ci up e ''MESSAGE_THREAD_INVALID''"
  by (simp add: classify_def isTopicNotFound_def isTopicNotModified_def
      Contains_ToUpper ascii_patterns no_lower_patterns)

lemma classify_Unchanged_iff:
  "classify up (Some e) = Unchanged
     \<longleftrightarrow> contains_ci up e ''TOPIC_NOT_MODIFIED''
         \<and> \<not> (contains_ci up e ''TOPIC_NOT_FOUND'' \<or> contains_ci up e ''TOPIC_ID_INVALID''
               \<or> contains_ci up e ''MESSAGE_THREAD_INVALID'')"
  by (simp add: classify_def isTopicNotFound_def isTopicNotModified_def
      Contains_ToUpper ascii_patterns no_lower_patterns)

lemma classify_None: "classify up None = Exists"
  by (simp add: classify_def isTopicNotModified_def)

text \<open>
  Error texts that are not ASCII. With a case table that gives U+0131 the upper-case form
  \<^verbatim>\<open>I\<close>, as the table of the Go library does, a text with U+0131 in the pattern is a
  not-found error. A byte that is not UTF-8 is read as U+FFFD and matches no letter.
\<close>

lemma dotless_i_not_found:
  assumes "up 305 = 73"
  shows "classify up (Some (''Bad Request: top'' @ dotless_i @ ''c_not_found'')) = NotFound"
  using assms
  by (simp add: classify_NotFound_iff contains_ci_def same_letter_def unicode_ToUpper_def
      dotless_i_def eval_runes)

lemma invalid_byte_no_match:
  "classify up (Some (''Bad Request: TOPIC'' @ [CHR 0xFF] @ ''_NOT_FOUND'')) = Exists"
  by (simp add: classify_def isTopicNotFound_def isTopicNotModified_def Contains_ToUpper
      ascii_patterns no_lower_patterns contains_ci_def same_letter_def unicode_ToUpper_def
      eval_runes)

lemma thread_pairs_kept:
  assumes "sint t \<le> 1 \<or> classify (UpperCase w) (ReopenForumTopic w (TargetChatID w) t) \<noteq> NotFound"
  shows "filter (\<lambda>q. TgThreadId q = t) (chat_thread_pairs (db (cleanupDeletedTopics w d)))
           = filter (\<lambda>q. TgThreadId q = t) (chat_thread_pairs d)"
proof -
  have "\<not> list_ex (\<lambda>p. drops_pair w (TargetChatID w) p q) (visited w d)"
    if "TgThreadId q = t" for q
    using assms that by (auto simp: list_ex_iff drops_pair_def doomed_def)
  then show ?thesis
    by (simp add: tick_pairs conj_commute cong: conj_cong)
qed

lemma thread_msgs_kept:
  assumes "sint t \<le> 1 \<or> classify (UpperCase w) (ReopenForumTopic w (TargetChatID w) t) \<noteq> NotFound"
  shows "filter (\<lambda>m. MsgTgThreadId m = t) (msg_id_pairs (db (cleanupDeletedTopics w d)))
           = filter (\<lambda>m. MsgTgThreadId m = t) (msg_id_pairs d)"
proof -
  have "\<not> list_ex (\<lambda>p. deletes_msg w (TargetChatID w) p m) (visited w d)"
    if "MsgTgThreadId m = t" for m
    using assms that by (auto simp: list_ex_iff deletes_msg_def doomed_def)
  then show ?thesis
    by (simp add: tick_msgs conj_commute cong: conj_cong)
qed

lemma DeleteMsgs_in_tick:
  "DeleteMsgs c t \<in> set (effects (cleanupDeletedTopics w d))
     \<longleftrightarrow> c = TargetChatID w
         \<and> (\<exists>p\<in>set (visited w d). TgThreadId p = t \<and> doomed w (TargetChatID w) p)"
  by (subst in_tick_effects) (auto simp: is_log_def DeleteMsgs_in_row_effects)

lemma DropPair_in_tick:
  "DropPair c t \<in> set (effects (cleanupDeletedTopics w d))
     \<longleftrightarrow> c = TargetChatID w
         \<and> (\<exists>p\<in>set (visited w d). TgThreadId p = t \<and> doomed w (TargetChatID w) p)"
  by (subst in_tick_effects) (auto simp: is_log_def DropPair_in_row_effects)

lemma Probe_in_tick:
  "Probe c t \<in> set (effects (cleanupDeletedTopics w d))
     \<longleftrightarrow> c = TargetChatID w
         \<and> (\<exists>p\<in>set (visited w d). TgThreadId p = t \<and> \<not> sint t \<le> 1)"
  by (subst in_tick_effects) (auto simp: is_log_def Probe_in_row_effects)

lemma Resync_in_tick:
  "Resync c ps \<in> set (effects (cleanupDeletedTopics w d))
     \<longleftrightarrow> c = TargetChatID w \<and> ps = visited w d
         \<and> (\<exists>p\<in>set (visited w d). \<not> sint (TgThreadId p) \<le> 1
               \<and> classify (UpperCase w) (ReopenForumTopic w (TargetChatID w) (TgThreadId p)) = Unchanged)"
  by (subst in_tick_effects) (auto simp: is_log_def Resync_in_row_effects)

lemma thread_not_deleted:
  assumes "sint t \<le> 1 \<or> classify (UpperCase w) (ReopenForumTopic w (TargetChatID w) t) \<noteq> NotFound"
  shows "DeleteMsgs c t \<notin> set (effects (cleanupDeletedTopics w d))"
    and "DropPair c t \<notin> set (effects (cleanupDeletedTopics w d))"
  using assms by (auto simp: DeleteMsgs_in_tick DropPair_in_tick doomed_def)

text \<open>
  C7. A pairing row of the default topic (thread id 0 or 1) is never probed, no delete call
  is made for its topic, and the rows of both tables with that thread id are the same after
  the tick as before.
\<close>

theorem default_topic_never_probed_or_deleted:
  assumes "t = 0 \<or> t = 1"
  shows "Probe c t \<notin> set (effects (cleanupDeletedTopics w d))
       \<and> DeleteMsgs c t \<notin> set (effects (cleanupDeletedTopics w d))
       \<and> DropPair c t \<notin> set (effects (cleanupDeletedTopics w d))
       \<and> filter (\<lambda>q. TgThreadId q = t) (chat_thread_pairs (db (cleanupDeletedTopics w d)))
           = filter (\<lambda>q. TgThreadId q = t) (chat_thread_pairs d)
       \<and> filter (\<lambda>m. MsgTgThreadId m = t) (msg_id_pairs (db (cleanupDeletedTopics w d)))
           = filter (\<lambda>m. MsgTgThreadId m = t) (msg_id_pairs d)"
proof -
  from assms have skip: "sint t \<le> 1"
    by auto
  then have "Probe c t \<notin> set (effects (cleanupDeletedTopics w d))"
    by (simp add: Probe_in_tick)
  with skip show ?thesis
    by (simp add: thread_not_deleted thread_pairs_kept thread_msgs_kept)
qed

theorem default_topic_witness:
  "Probe 100 1 \<notin> set (effects (cleanupDeletedTopics env_delete_fails one_topic))
   \<and> DropPair 100 1 \<notin> set (effects (cleanupDeletedTopics env_delete_fails one_topic))
   \<and> chat_thread_pairs (db (cleanupDeletedTopics env_delete_fails one_topic))
       = [\<lparr>ID = ''C0'', TgChatId = 100, TgThreadId = 1\<rparr>]
   \<and> filter (\<lambda>m. MsgTgThreadId m = 1)
         (msg_id_pairs (db (cleanupDeletedTopics env_delete_fails one_topic)))
       = [\<lparr>MsgTgChatId = 100, MsgTgThreadId = 1, WaMsgId = ''m3'', TgMsgId = 9\<rparr>]"
  using default_topic_never_probed_or_deleted [of 1 100 env_delete_fails one_topic]
  by (simp add: tick_pairs visited_def ChatThreadGetAllPairs_def drops_pair_def doomed_def
      classify_def isTopicNotFound_def isTopicNotModified_def eval_upper
      env_delete_fails_def env_not_found_def env_ok_def one_topic_def)

text \<open>
  C10. With no Telegram bot handle the tick returns at once: no effect of any kind, and the
  store is the one it was given.
\<close>

theorem no_bot_no_effect:
  "\<not> TelegramBot w \<Longrightarrow> cleanupDeletedTopics w d = \<lparr>db = d, effects = []\<rparr>"
  by (simp add: cleanupDeletedTopics_def)

theorem no_bot_witness:
  "\<not> TelegramBot env_no_bot
   \<and> cleanupDeletedTopics env_no_bot one_topic = \<lparr>db = one_topic, effects = []\<rparr>"
proof -
  have h: "\<not> TelegramBot env_no_bot"
    by (simp add: env_no_bot_def)
  from h no_bot_no_effect [OF h, of one_topic] show ?thesis
    by simp
qed

lemma row_effects_doomed:
  assumes "doomed w c p"
  shows "\<exists>hd mid post. row_effects w c ps p
           = hd @ DeleteMsgs c (TgThreadId p) # mid @ DropPair c (TgThreadId p) # post
         \<and> list_all is_log mid"
proof -
  let ?mid = "case delete_msgs_error w c (TgThreadId p) of
                None \<Rightarrow> []
              | Some e \<Rightarrow>
                  [Log Error ''[scheduler] failed to delete msg_id_pairs for deleted topic''
                     [Int64 ''tg_thread_id'' (TgThreadId p), Err e]]"
  let ?post = "case drop_pair_error w c (TgThreadId p) of
                None \<Rightarrow> []
              | Some e \<Rightarrow>
                  [Log Error ''[scheduler] failed to delete chat_thread_pairs for deleted topic''
                     [Int64 ''tg_thread_id'' (TgThreadId p), Err e]]"
  have "row_effects w c ps p
      = [Probe c (TgThreadId p),
         Log Info ''[scheduler] detected deleted Telegram topic, cleaning up''
           [Int64 ''tg_chat_id'' c, Int64 ''tg_thread_id'' (TgThreadId p),
            Str ''wa_chat_id'' (ID p)]]
        @ DeleteMsgs c (TgThreadId p) # ?mid @ DropPair c (TgThreadId p) # ?post"
    using assms by (simp add: row_effects_eq doomed_def)
  moreover have "list_all is_log ?mid"
    by (simp add: is_log_def split: option.splits)
  ultimately show ?thesis
    by blast
qed

text \<open>
  C4. A pairing row of the target group that is probed and whose probe error is a not-found
  error gets both delete calls, the message pairs first and the pairing row second, with
  nothing but a log entry between them, whatever either call returns. Each call that
  succeeds leaves no row of the topic in its table at the end of the tick, whether or not
  the other call failed. Every row of the target group that is not skipped is still probed in
  the tick.
\<close>

theorem cascade_delete_attempts_both:
  assumes bot: "TelegramBot w"
    and read: "get_pairs_error w (TargetChatID w) = None"
    and row: "p \<in> set (chat_thread_pairs d)" "TgChatId p = TargetChatID w"
    and probed: "\<not> sint (TgThreadId p) \<le> 1"
    and nf: "classify (UpperCase w) (ReopenForumTopic w (TargetChatID w) (TgThreadId p)) = NotFound"
  shows "(\<exists>pre mid post.
            effects (cleanupDeletedTopics w d)
              = pre @ DeleteMsgs (TargetChatID w) (TgThreadId p) # mid
                  @ DropPair (TargetChatID w) (TgThreadId p) # post
            \<and> list_all is_log mid)
       \<and> (delete_msgs_error w (TargetChatID w) (TgThreadId p) = None \<longrightarrow>
            (\<forall>m\<in>set (msg_id_pairs (db (cleanupDeletedTopics w d))).
               \<not> (MsgTgChatId m = TargetChatID w \<and> MsgTgThreadId m = TgThreadId p)))
       \<and> (drop_pair_error w (TargetChatID w) (TgThreadId p) = None \<longrightarrow>
            (\<forall>q\<in>set (chat_thread_pairs (db (cleanupDeletedTopics w d))).
               \<not> (TgChatId q = TargetChatID w \<and> TgThreadId q = TgThreadId p)))
       \<and> (\<forall>q\<in>set (chat_thread_pairs d).
            TgChatId q = TargetChatID w \<and> \<not> sint (TgThreadId q) \<le> 1 \<longrightarrow>
            Probe (TargetChatID w) (TgThreadId q) \<in> set (effects (cleanupDeletedTopics w d)))"
proof -
  let ?c = "TargetChatID w" and ?t = "TgThreadId p"
  let ?T = "cleanupDeletedTopics w d"
  have vis: "visited w d = filter (\<lambda>p. TgChatId p = ?c) (chat_thread_pairs d)"
    using bot read by (rule visited_eq)
  with row have p_vis: "p \<in> set (visited w d)"
    by simp
  have dm: "doomed w ?c p"
    using probed nf by (simp add: doomed_def)
  have order: "\<exists>pre mid post.
      effects ?T = pre @ DeleteMsgs ?c ?t # mid @ DropPair ?c ?t # post \<and> list_all is_log mid"
  proof -
    from p_vis obtain xs ys where split: "visited w d = xs @ p # ys"
      by (auto dest: split_list)
    from row_effects_doomed [OF dm, of "visited w d"]
    obtain hd mid post where re: "row_effects w ?c (visited w d) p
        = hd @ DeleteMsgs ?c ?t # mid @ DropPair ?c ?t # post" and mid: "list_all is_log mid"
      by blast
    obtain pre0 where eff: "effects ?T
        = pre0 @ concat (map (row_effects w ?c (visited w d)) (visited w d))"
      using bot by (simp add: tick_effects)
    have "concat (map (row_effects w ?c (visited w d)) (visited w d))
        = concat (map (row_effects w ?c (visited w d)) xs)
          @ row_effects w ?c (visited w d) p
          @ concat (map (row_effects w ?c (visited w d)) ys)"
      by (subst (2) split) simp
    with eff re have "effects ?T
        = (pre0 @ concat (map (row_effects w ?c (visited w d)) xs) @ hd)
          @ DeleteMsgs ?c ?t # mid
          @ DropPair ?c ?t # (post @ concat (map (row_effects w ?c (visited w d)) ys))"
      by simp
    with mid show ?thesis
      by blast
  qed
  have msgs: "\<forall>m\<in>set (msg_id_pairs (db ?T)). \<not> (MsgTgChatId m = ?c \<and> MsgTgThreadId m = ?t)"
    if ok: "delete_msgs_error w ?c ?t = None"
  proof
    fix m
    assume "m \<in> set (msg_id_pairs (db ?T))"
    then have "\<not> deletes_msg w ?c p m"
      using p_vis by (auto simp: tick_msgs list_ex_iff)
    with dm ok show "\<not> (MsgTgChatId m = ?c \<and> MsgTgThreadId m = ?t)"
      by (simp add: deletes_msg_def)
  qed
  have pairs: "\<forall>q\<in>set (chat_thread_pairs (db ?T)). \<not> (TgChatId q = ?c \<and> TgThreadId q = ?t)"
    if ok: "drop_pair_error w ?c ?t = None"
  proof
    fix q
    assume "q \<in> set (chat_thread_pairs (db ?T))"
    then have "\<not> drops_pair w ?c p q"
      using p_vis by (auto simp: tick_pairs list_ex_iff)
    with dm ok show "\<not> (TgChatId q = ?c \<and> TgThreadId q = ?t)"
      by (simp add: drops_pair_def)
  qed
  have rest: "\<forall>q\<in>set (chat_thread_pairs d).
      TgChatId q = ?c \<and> \<not> sint (TgThreadId q) \<le> 1 \<longrightarrow> Probe ?c (TgThreadId q) \<in> set (effects ?T)"
    by (auto simp: Probe_in_tick vis)
  from order msgs pairs rest show ?thesis
    by blast
qed

lemmas tick_eval =
  cleanupDeletedTopics_def loop_body_def delete_msgs_def drop_pair_def
  MsgIdDeletePairsByThreadId_def ChatThreadDropPairByTg_def ChatThreadGetAllPairs_def
  emit_def Let_def isTopicNotFound_def isTopicNotModified_def eval_upper

lemmas sample_envs =
  env_ok_def env_not_found_def env_delete_fails_def env_both_patterns_def
  env_not_modified_def env_no_bot_def

lemma tick_delete_fails:
  "cleanupDeletedTopics env_delete_fails one_topic
     = \<lparr>db = \<lparr>chat_thread_pairs = [\<lparr>ID = ''C0'', TgChatId = 100, TgThreadId = 1\<rparr>],
               msg_id_pairs = msg_id_pairs one_topic\<rparr>,
        effects =
          [SyncContacts, ReadPairs 100, Probe 100 50,
           Log Info ''[scheduler] detected deleted Telegram topic, cleaning up''
             [Int64 ''tg_chat_id'' 100, Int64 ''tg_thread_id'' 50, Str ''wa_chat_id'' ''C1''],
           DeleteMsgs 100 50,
           Log Error ''[scheduler] failed to delete msg_id_pairs for deleted topic''
             [Int64 ''tg_thread_id'' 50, Err ''connection lost''],
           DropPair 100 50]\<rparr>"
  by (simp add: tick_eval sample_envs one_topic_def)

theorem cascade_delete_witness:
  "TelegramBot env_delete_fails
   \<and> classify (UpperCase env_delete_fails) (ReopenForumTopic env_delete_fails 100 50) = NotFound
   \<and> delete_msgs_error env_delete_fails 100 50 = Some ''connection lost''
   \<and> (\<exists>pre mid post.
         effects (cleanupDeletedTopics env_delete_fails one_topic)
           = pre @ DeleteMsgs 100 50 # mid @ DropPair 100 50 # post \<and> list_all is_log mid)
   \<and> chat_thread_pairs (db (cleanupDeletedTopics env_delete_fails one_topic))
       = [\<lparr>ID = ''C0'', TgChatId = 100, TgThreadId = 1\<rparr>]
   \<and> Probe 100 50 \<in> set (effects (cleanupDeletedTopics env_delete_fails one_topic))"
proof -
  let ?p = "\<lparr>ID = ''C1'', TgChatId = 100, TgThreadId = 50\<rparr>"
  have bot: "TelegramBot env_delete_fails"
    and read: "get_pairs_error env_delete_fails (TargetChatID env_delete_fails) = None"
    and c: "TargetChatID env_delete_fails = 100"
    and fails: "delete_msgs_error env_delete_fails 100 50 = Some ''connection lost''"
    by (simp_all add: sample_envs)
  have row: "?p \<in> set (chat_thread_pairs one_topic)" "TgChatId ?p = TargetChatID env_delete_fails"
    by (simp_all add: one_topic_def c)
  have probed: "\<not> sint (TgThreadId ?p) \<le> 1"
    by simp
  have nf: "classify (UpperCase env_delete_fails) (ReopenForumTopic env_delete_fails 100 50)
      = NotFound"
    by (simp add: classify_def isTopicNotFound_def eval_upper sample_envs)
  then have nf': "classify (UpperCase env_delete_fails) (ReopenForumTopic env_delete_fails
      (TargetChatID env_delete_fails) (TgThreadId ?p)) = NotFound"
    by (simp add: c)
  from cascade_delete_attempts_both [OF bot read row probed nf']
  have "\<exists>pre mid post.
         effects (cleanupDeletedTopics env_delete_fails one_topic)
           = pre @ DeleteMsgs 100 50 # mid @ DropPair 100 50 # post \<and> list_all is_log mid"
    by (simp add: c)
  then show ?thesis
    using bot nf fails by (simp add: tick_delete_fails)
qed

lemma loop_body_keeps_db:
  assumes "sint (TgThreadId p) \<le> 1
    \<or> classify (UpperCase w) (ReopenForumTopic w c (TgThreadId p)) \<noteq> NotFound"
  shows "db (loop_body w c ps s p) = db s"
  using assms by (auto simp: loop_body_def Let_def classify_def)

text \<open>
  C8, as amended. For a pairing row of the target group that is probed: when the probe error
  text contains \<^verbatim>\<open>TOPIC_NOT_MODIFIED\<close> and none of the three not-found patterns, the tick
  calls the topic-name resynchronisation with the rows it read; in that case and when the
  probe error is \<^verbatim>\<open>nil\<close>, the iteration for the row leaves the store as it is, the tick
  makes no delete call for the topic, and the rows of both tables with that thread id are
  the same after the tick as before.
\<close>

theorem not_modified_resyncs_and_nil_keeps:
  assumes bot: "TelegramBot w"
    and read: "get_pairs_error w (TargetChatID w) = None"
    and row: "p \<in> set (chat_thread_pairs d)" "TgChatId p = TargetChatID w"
    and probed: "\<not> sint (TgThreadId p) \<le> 1"
  shows "((\<exists>e. ReopenForumTopic w (TargetChatID w) (TgThreadId p) = Some e
             \<and> contains_ci (UpperCase w) e ''TOPIC_NOT_MODIFIED''
             \<and> \<not> contains_ci (UpperCase w) e ''TOPIC_NOT_FOUND'' \<and> \<not> contains_ci (UpperCase w) e ''TOPIC_ID_INVALID''
             \<and> \<not> contains_ci (UpperCase w) e ''MESSAGE_THREAD_INVALID'') \<longrightarrow>
            Resync (TargetChatID w) (visited w d) \<in> set (effects (cleanupDeletedTopics w d)))
       \<and> ((ReopenForumTopic w (TargetChatID w) (TgThreadId p) = None
            \<or> (\<exists>e. ReopenForumTopic w (TargetChatID w) (TgThreadId p) = Some e
                  \<and> contains_ci (UpperCase w) e ''TOPIC_NOT_MODIFIED''
                  \<and> \<not> contains_ci (UpperCase w) e ''TOPIC_NOT_FOUND'' \<and> \<not> contains_ci (UpperCase w) e ''TOPIC_ID_INVALID''
                  \<and> \<not> contains_ci (UpperCase w) e ''MESSAGE_THREAD_INVALID'')) \<longrightarrow>
            (\<forall>s ps. db (loop_body w (TargetChatID w) ps s p) = db s)
            \<and> DeleteMsgs (TargetChatID w) (TgThreadId p)
                 \<notin> set (effects (cleanupDeletedTopics w d))
            \<and> DropPair (TargetChatID w) (TgThreadId p)
                 \<notin> set (effects (cleanupDeletedTopics w d))
            \<and> filter (\<lambda>q. TgThreadId q = TgThreadId p)
                  (chat_thread_pairs (db (cleanupDeletedTopics w d)))
                = filter (\<lambda>q. TgThreadId q = TgThreadId p) (chat_thread_pairs d)
            \<and> filter (\<lambda>m. MsgTgThreadId m = TgThreadId p)
                  (msg_id_pairs (db (cleanupDeletedTopics w d)))
                = filter (\<lambda>m. MsgTgThreadId m = TgThreadId p) (msg_id_pairs d))"
proof -
  let ?c = "TargetChatID w" and ?t = "TgThreadId p"
  let ?nm = "\<exists>e. ReopenForumTopic w ?c ?t = Some e
             \<and> contains_ci (UpperCase w) e ''TOPIC_NOT_MODIFIED''
             \<and> \<not> contains_ci (UpperCase w) e ''TOPIC_NOT_FOUND'' \<and> \<not> contains_ci (UpperCase w) e ''TOPIC_ID_INVALID''
             \<and> \<not> contains_ci (UpperCase w) e ''MESSAGE_THREAD_INVALID''"
  have vis: "visited w d = filter (\<lambda>p. TgChatId p = ?c) (chat_thread_pairs d)"
    using bot read by (rule visited_eq)
  with row have p_vis: "p \<in> set (visited w d)"
    by simp
  have resync: "Resync ?c (visited w d) \<in> set (effects (cleanupDeletedTopics w d))" if ?nm
  proof -
    from that have "classify (UpperCase w) (ReopenForumTopic w ?c ?t) = Unchanged"
      by (auto simp: classify_Unchanged_iff)
    with probed p_vis show ?thesis
      by (auto simp: Resync_in_tick)
  qed
  have quiet: "(\<forall>s ps. db (loop_body w ?c ps s p) = db s)
      \<and> DeleteMsgs ?c ?t \<notin> set (effects (cleanupDeletedTopics w d))
      \<and> DropPair ?c ?t \<notin> set (effects (cleanupDeletedTopics w d))
      \<and> filter (\<lambda>q. TgThreadId q = ?t) (chat_thread_pairs (db (cleanupDeletedTopics w d)))
          = filter (\<lambda>q. TgThreadId q = ?t) (chat_thread_pairs d)
      \<and> filter (\<lambda>m. MsgTgThreadId m = ?t) (msg_id_pairs (db (cleanupDeletedTopics w d)))
          = filter (\<lambda>m. MsgTgThreadId m = ?t) (msg_id_pairs d)"
    if "ReopenForumTopic w ?c ?t = None \<or> ?nm"
  proof -
    from that have alive: "classify (UpperCase w) (ReopenForumTopic w ?c ?t) \<noteq> NotFound"
      by (auto simp: classify_None classify_NotFound_iff)
    then show ?thesis
      by (simp add: loop_body_keeps_db thread_not_deleted thread_pairs_kept thread_msgs_kept)
  qed
  from resync quiet show ?thesis
    by blast
qed

lemma tick_not_modified:
  "cleanupDeletedTopics env_not_modified one_topic
     = \<lparr>db = one_topic,
        effects =
          [SyncContacts, ReadPairs 100, Probe 100 50,
           Resync 100 (chat_thread_pairs one_topic)]\<rparr>"
  by (simp add: tick_eval sample_envs one_topic_def)

theorem not_modified_witness:
  "TelegramBot env_not_modified
   \<and> ReopenForumTopic env_not_modified 100 50 = Some ''Bad Request: TOPIC_NOT_MODIFIED''
   \<and> Resync 100 (chat_thread_pairs one_topic)
       \<in> set (effects (cleanupDeletedTopics env_not_modified one_topic))
   \<and> DeleteMsgs 100 50 \<notin> set (effects (cleanupDeletedTopics env_not_modified one_topic))
   \<and> DropPair 100 50 \<notin> set (effects (cleanupDeletedTopics env_not_modified one_topic))
   \<and> db (cleanupDeletedTopics env_not_modified one_topic) = one_topic"
proof -
  let ?p = "\<lparr>ID = ''C1'', TgChatId = 100, TgThreadId = 50\<rparr>"
  have bot: "TelegramBot env_not_modified"
    and read: "get_pairs_error env_not_modified (TargetChatID env_not_modified) = None"
    and c: "TargetChatID env_not_modified = 100"
    and err: "ReopenForumTopic env_not_modified 100 50 = Some ''Bad Request: TOPIC_NOT_MODIFIED''"
    by (simp_all add: sample_envs)
  have row: "?p \<in> set (chat_thread_pairs one_topic)" "TgChatId ?p = TargetChatID env_not_modified"
    by (simp_all add: one_topic_def c)
  have probed: "\<not> sint (TgThreadId ?p) \<le> 1"
    by simp
  have probe: "\<exists>e. ReopenForumTopic env_not_modified (TargetChatID env_not_modified) (TgThreadId ?p) = Some e
             \<and> contains_ci (UpperCase env_not_modified) e ''TOPIC_NOT_MODIFIED''
             \<and> \<not> contains_ci (UpperCase env_not_modified) e ''TOPIC_NOT_FOUND'' \<and> \<not> contains_ci (UpperCase env_not_modified) e ''TOPIC_ID_INVALID''
             \<and> \<not> contains_ci (UpperCase env_not_modified) e ''MESSAGE_THREAD_INVALID''"
    by (simp add: c err eval_ci)
  from not_modified_resyncs_and_nil_keeps [OF bot read row probed] probe
  have "DeleteMsgs 100 50 \<notin> set (effects (cleanupDeletedTopics env_not_modified one_topic))
      \<and> DropPair 100 50 \<notin> set (effects (cleanupDeletedTopics env_not_modified one_topic))"
    by (simp add: c)
  then show ?thesis
    using bot err by (simp add: tick_not_modified)
qed

text \<open>
  The claim as stated fails for an error text that contains \<^verbatim>\<open>TOPIC_NOT_MODIFIED\<close> and a
  not-found pattern: the not-found test comes first, so the rows are deleted and the
  resynchronisation is not called.
\<close>

theorem not_modified_counterexample:
  "isTopicNotModified (UpperCase env_both_patterns) (ReopenForumTopic env_both_patterns 100 50)
   \<and> contains_ci (UpperCase env_both_patterns) ''TOPIC_NOT_FOUND (was TOPIC_NOT_MODIFIED)''
       ''TOPIC_NOT_MODIFIED''
   \<and> cleanupDeletedTopics env_both_patterns one_topic
       = \<lparr>db = \<lparr>chat_thread_pairs = [\<lparr>ID = ''C0'', TgChatId = 100, TgThreadId = 1\<rparr>],
                 msg_id_pairs =
                   [\<lparr>MsgTgChatId = 100, MsgTgThreadId = 1, WaMsgId = ''m3'', TgMsgId = 9\<rparr>]\<rparr>,
          effects =
            [SyncContacts, ReadPairs 100, Probe 100 50,
             Log Info ''[scheduler] detected deleted Telegram topic, cleaning up''
               [Int64 ''tg_chat_id'' 100, Int64 ''tg_thread_id'' 50, Str ''wa_chat_id'' ''C1''],
             DeleteMsgs 100 50, DropPair 100 50]\<rparr>"
  by (simp add: tick_eval sample_envs one_topic_def eval_ci)

text \<open>
  The same with an error text that is not ASCII: \<^verbatim>\<open>TOPIC_NOT_MODIFIED\<close> followed by
  \<^verbatim>\<open>topic_not_found\<close> written with U+0131 for its first \<^verbatim>\<open>i\<close>. Upper-casing turns
  U+0131 into \<^verbatim>\<open>I\<close>, the not-found test holds, and the rows are deleted.
\<close>

lemma isTopicNotFound_dotless_i:
  "isTopicNotFound upper_table (Some (''TOPIC_NOT_MODIFIED top'' @ dotless_i @ ''c_not_found''))"
proof -
  have "classify upper_table (Some (''TOPIC_NOT_MODIFIED top'' @ dotless_i @ ''c_not_found''))
          = NotFound"
    by (simp add: classify_NotFound_iff contains_ci_def same_letter_def unicode_ToUpper_def
        dotless_i_def eval_runes upper_table_def)
  then show ?thesis
    by (simp add: classify_def split: if_splits)
qed

lemma tick_dotless_i:
  "cleanupDeletedTopics env_dotless_i one_topic
     = \<lparr>db = \<lparr>chat_thread_pairs = [\<lparr>ID = ''C0'', TgChatId = 100, TgThreadId = 1\<rparr>],
               msg_id_pairs =
                 [\<lparr>MsgTgChatId = 100, MsgTgThreadId = 1, WaMsgId = ''m3'', TgMsgId = 9\<rparr>]\<rparr>,
        effects =
          [SyncContacts, ReadPairs 100, Probe 100 50,
           Log Info ''[scheduler] detected deleted Telegram topic, cleaning up''
             [Int64 ''tg_chat_id'' 100, Int64 ''tg_thread_id'' 50, Str ''wa_chat_id'' ''C1''],
           DeleteMsgs 100 50, DropPair 100 50]\<rparr>"
  using isTopicNotFound_dotless_i
  by (simp add: cleanupDeletedTopics_def loop_body_def delete_msgs_def drop_pair_def
      MsgIdDeletePairsByThreadId_def ChatThreadDropPairByTg_def ChatThreadGetAllPairs_def
      emit_def Let_def env_dotless_i_def env_ok_def one_topic_def)

section \<open>Properties of the orphan sweep\<close>

lemma join_row_None:
  "(a', None) \<in> set (join_row a bs)
     \<longleftrightarrow> a' = a \<and> MsgTgThreadId a \<notin> set (map TgThreadId bs)"
proof (cases "filter (\<lambda>b. MsgTgThreadId a = TgThreadId b) bs")
  case Nil
  then have "MsgTgThreadId a \<notin> set (map TgThreadId bs)"
    by (auto simp: filter_empty_conv)
  with Nil show ?thesis
    by (simp add: join_row_def)
next
  case (Cons m ms)
  then have "m \<in> set (filter (\<lambda>b. MsgTgThreadId a = TgThreadId b) bs)"
    by simp
  then have "MsgTgThreadId a \<in> set (map TgThreadId bs)"
    by auto
  with Cons show ?thesis
    by (auto simp: join_row_def)
qed

lemma selected_iff:
  "a \<in> set (map fst (filter b_is_null (left_join as bs)))
     \<longleftrightarrow> a \<in> set as \<and> MsgTgThreadId a \<notin> set (map TgThreadId bs)"
proof -
  have "a \<in> set (map fst (filter b_is_null (left_join as bs)))
      \<longleftrightarrow> (a, None) \<in> set (left_join as bs)"
    by (force simp: b_is_null_def)
  also have "\<dots> \<longleftrightarrow> (\<exists>x\<in>set as. (a, None) \<in> set (join_row x bs))"
    by (simp add: left_join_def)
  also have "\<dots> \<longleftrightarrow> a \<in> set as \<and> MsgTgThreadId a \<notin> set (map TgThreadId bs)"
    by (auto simp only: join_row_None)
  finally show ?thesis .
qed

lemma kept_filter:
  "filter (\<lambda>a. a \<notin> set (map fst (filter b_is_null (left_join as bs)))) as
     = filter (\<lambda>m. MsgTgThreadId m \<in> set (map TgThreadId bs)) as"
  by (rule filter_cong) (simp_all only: selected_iff, auto)

lemma delete_orphans_eq:
  "delete_orphans d
     = (sweep_by_thread d,
        length (msg_id_pairs d) - length (msg_id_pairs (sweep_by_thread d)))"
  unfolding delete_orphans_def Let_def kept_filter sweep_by_thread_def by simp

lemma sweep_by_thread_idem: "sweep_by_thread (sweep_by_thread d) = sweep_by_thread d"
  by (simp add: sweep_by_thread_def)

lemma db_CleanUpMsg:
  "db (CleanUpMsg w d)
     = (if DatabaseHandle w \<and> exec_error w orphan_sql = None then sweep_by_thread d else d)"
  by (simp add: CleanUpMsg_def emit_def Let_def delete_orphans_eq split: option.splits)

lemma effects_CleanUpMsg:
  "effects (CleanUpMsg w d)
     = (if DatabaseHandle w then
          Exec orphan_sql #
          (case exec_error w orphan_sql of
             Some e \<Rightarrow>
               [Log Error ''[scheduler] failed to clean up orphaned msg_id_pairs'' [Err e]]
           | None \<Rightarrow>
               [Log Info ''[scheduler] cleaned up orphaned msg_id_pairs''
                  [Int64 ''rows_affected''
                     (of_nat (length (msg_id_pairs d)
                        - length (msg_id_pairs (sweep_by_thread d))))]])
        else [])"
  by (simp add: CleanUpMsg_def Let_def delete_orphans_eq split: option.splits)

text \<open>
  What a run of the sweep does to the store: when its statement is executed it keeps the
  message pairs whose thread id is the thread id of some pairing row, whatever the group
  ids are, and changes nothing else; without a database handle, or when the statement
  fails, it changes nothing.
\<close>

lemma sweep_deletes_by_thread_id:
  "db (CleanUpMsg w d)
     = (if DatabaseHandle w \<and> exec_error w orphan_sql = None
        then d\<lparr>msg_id_pairs :=
                 filter (\<lambda>m. MsgTgThreadId m \<in> set (map TgThreadId (chat_thread_pairs d)))
                   (msg_id_pairs d)\<rparr>
        else d)"
  by (simp add: db_CleanUpMsg sweep_by_thread_def)

text \<open>
  C5. The sweep is to delete exactly the message pairs whose \<open>(tgChatId, tgThreadId)\<close> has
  no pairing row. On a store with rows of two groups the code does not: the message pair of
  group 100 and thread 50 has no pairing row (the only pairing row is of group 200 and
  thread 50) and the sweep keeps it, because the statement joins the tables on the thread
  id alone. The store the claim requires has the message pair of group 200 and thread 50
  only. The delete calls of the reconciliation tick, on the same tables, take the group id
  with the thread id.
\<close>

theorem sweep_ignores_group_id:
  "topic_of_msg \<lparr>MsgTgChatId = 100, MsgTgThreadId = 50, WaMsgId = ''m1'', TgMsgId = 7\<rparr>
     \<notin> set (map topic_of_pair (chat_thread_pairs two_groups))
   \<and> db (CleanUpMsg env_ok two_groups)
       = \<lparr>chat_thread_pairs = [\<lparr>ID = ''C1'', TgChatId = 200, TgThreadId = 50\<rparr>],
          msg_id_pairs =
            [\<lparr>MsgTgChatId = 100, MsgTgThreadId = 50, WaMsgId = ''m1'', TgMsgId = 7\<rparr>,
             \<lparr>MsgTgChatId = 200, MsgTgThreadId = 50, WaMsgId = ''m2'', TgMsgId = 8\<rparr>]\<rparr>
   \<and> sweep_spec two_groups
       = \<lparr>chat_thread_pairs = [\<lparr>ID = ''C1'', TgChatId = 200, TgThreadId = 50\<rparr>],
          msg_id_pairs =
            [\<lparr>MsgTgChatId = 200, MsgTgThreadId = 50, WaMsgId = ''m2'', TgMsgId = 8\<rparr>]\<rparr>
   \<and> db (CleanUpMsg env_ok two_groups) \<noteq> sweep_spec two_groups"
  by (simp add: db_CleanUpMsg sweep_by_thread_def sweep_spec_def topic_of_msg_def
      topic_of_pair_def env_ok_def two_groups_def)

lemma sweep_statement_fails:
  "db (CleanUpMsg env_exec_fails two_groups) = two_groups"
  by (simp add: db_CleanUpMsg env_ok_def env_exec_fails_def)

text \<open>Where every row of both tables is of one group, the sweep is the one specified.\<close>

lemma sweep_single_group:
  assumes "\<forall>p\<in>set (chat_thread_pairs d). TgChatId p = c"
    and "\<forall>m\<in>set (msg_id_pairs d). MsgTgChatId m = c"
  shows "sweep_by_thread d = sweep_spec d"
proof -
  have "MsgTgThreadId m \<in> set (map TgThreadId (chat_thread_pairs d))
      \<longleftrightarrow> topic_of_msg m \<in> set (map topic_of_pair (chat_thread_pairs d))"
    if "m \<in> set (msg_id_pairs d)" for m
    using assms that by (force simp: topic_of_msg_def topic_of_pair_def)
  then show ?thesis
    by (simp add: sweep_by_thread_def sweep_spec_def cong: filter_cong)
qed

text \<open>Once a run has executed the statement, a later run in any environment deletes nothing.\<close>

lemma sweep_after_executed:
  assumes "DatabaseHandle w1" "exec_error w1 orphan_sql = None"
  shows "db (CleanUpMsg w2 (db (CleanUpMsg w1 d))) = db (CleanUpMsg w1 d)"
  using assms by (simp add: db_CleanUpMsg sweep_by_thread_idem)

text \<open>
  C9. Running the sweep twice in a row: the second run deletes no row and leaves the store
  as the first run left it; when its statement is executed, the rows affected it logs are 0.
\<close>

theorem sweep_idempotent:
  "db (CleanUpMsg w (db (CleanUpMsg w d))) = db (CleanUpMsg w d)
   \<and> rows_deleted w (db (CleanUpMsg w d)) = 0
   \<and> effects (CleanUpMsg w (db (CleanUpMsg w d)))
       = (if DatabaseHandle w then
            Exec orphan_sql #
            (case exec_error w orphan_sql of
               Some e \<Rightarrow>
                 [Log Error ''[scheduler] failed to clean up orphaned msg_id_pairs'' [Err e]]
             | None \<Rightarrow>
                 [Log Info ''[scheduler] cleaned up orphaned msg_id_pairs''
                    [Int64 ''rows_affected'' 0]])
          else [])"
proof -
  have twice: "db (CleanUpMsg w (db (CleanUpMsg w d))) = db (CleanUpMsg w d)"
    by (simp add: db_CleanUpMsg sweep_by_thread_idem)
  then have "rows_deleted w (db (CleanUpMsg w d)) = 0"
    by (simp add: rows_deleted_def)
  moreover have "length (msg_id_pairs (db (CleanUpMsg w d)))
      - length (msg_id_pairs (sweep_by_thread (db (CleanUpMsg w d)))) = 0"
    if "DatabaseHandle w" "exec_error w orphan_sql = None"
    using that by (simp add: db_CleanUpMsg sweep_by_thread_idem)
  ultimately show ?thesis
    using twice by (simp add: effects_CleanUpMsg split: option.splits)
qed

theorem sweep_idempotent_witness:
  "rows_deleted env_ok two_groups = 1
   \<and> rows_deleted env_ok (db (CleanUpMsg env_ok two_groups)) = 0
   \<and> db (CleanUpMsg env_ok (db (CleanUpMsg env_ok two_groups)))
       = db (CleanUpMsg env_ok two_groups)
   \<and> effects (CleanUpMsg env_ok (db (CleanUpMsg env_ok two_groups)))
       = [Exec orphan_sql,
          Log Info ''[scheduler] cleaned up orphaned msg_id_pairs'' [Int64 ''rows_affected'' 0]]"
proof -
  have "rows_deleted env_ok two_groups = 1"
    by (simp add: rows_deleted_def db_CleanUpMsg sweep_by_thread_def env_ok_def two_groups_def)
  moreover have "DatabaseHandle env_ok" "exec_error env_ok orphan_sql = None"
    by (simp_all add: env_ok_def)
  ultimately show ?thesis
    using sweep_idempotent [of env_ok two_groups] by simp
qed

text \<open>
  The scenario of the specification: the pairing of chat \<^verbatim>\<open>C1\<close> with topic 50 of group 100
  has two message pairs; the probe answers \<^verbatim>\<open>Bad Request: TOPIC_NOT_FOUND\<close>. The tick
  removes the pairing row and both message pairs, and a run of the sweep on the store it
  leaves finds no orphan.
\<close>

lemma scenario_topic_not_found:
  "db (cleanupDeletedTopics env_not_found one_topic)
     = \<lparr>chat_thread_pairs = [\<lparr>ID = ''C0'', TgChatId = 100, TgThreadId = 1\<rparr>],
        msg_id_pairs =
          [\<lparr>MsgTgChatId = 100, MsgTgThreadId = 1, WaMsgId = ''m3'', TgMsgId = 9\<rparr>]\<rparr>
   \<and> rows_deleted env_ok (db (cleanupDeletedTopics env_not_found one_topic)) = 0"
proof -
  have "db (cleanupDeletedTopics env_not_found one_topic)
     = \<lparr>chat_thread_pairs = [\<lparr>ID = ''C0'', TgChatId = 100, TgThreadId = 1\<rparr>],
        msg_id_pairs =
          [\<lparr>MsgTgChatId = 100, MsgTgThreadId = 1, WaMsgId = ''m3'', TgMsgId = 9\<rparr>]\<rparr>"
    by (simp add: tick_eval sample_envs one_topic_def)
  then show ?thesis
    by (simp add: rows_deleted_def db_CleanUpMsg sweep_by_thread_def env_ok_def)
qed

section \<open>Properties of the dispatch queues\<close>

lemma submitted_append [simp]: "submitted (xs @ ys) = submitted xs @ submitted ys"
  by (induction xs rule: submitted.induct) simp_all

lemma started_append [simp]: "started (xs @ ys) = started xs @ started ys"
  by (induction xs rule: started.induct) simp_all

lemma finished_append [simp]: "finished (xs @ ys) = finished xs @ finished ys"
  by (induction xs rule: finished.induct) simp_all

lemma Finished_in_finished: "Finished i w r \<in> set es \<Longrightarrow> i \<in> set (finished es)"
  by (induction es rule: finished.induct) auto

text \<open>What each step requires of the state and how it changes it.\<close>

lemma start_workersE:
  assumes "start_workers s = Some s'"
  obtains "worker s = NotStarted" "s' = s\<lparr>worker := Receiving\<rparr>"
  using assms by (auto simp: start_workers_def split: worker.splits)

lemma worker_receiveE:
  assumes "worker_receive s = Some s'"
  obtains j js where "worker s = Receiving" "jobCh s = j # js"
    "s' = s\<lparr>jobCh := js, worker := Running j, trace := trace s @ [Started (ch j)]\<rparr>"
  using assms by (auto simp: worker_receive_def split: worker.splits list.splits)

lemma worker_runE:
  assumes "worker_run cfg p s = Some s'"
  obtains j r w' where "worker s = Running j" "resultCh s (ch j) = []"
    "fn j (client s) = (r, w')"
    "s' = s\<lparr>client := w', resultCh := (resultCh s)(ch j := [r]),
             worker := (if QueueEnabled cfg p then Sleeping else Receiving),
             trace := trace s @ [Finished (ch j) (client s) r]\<rparr>"
  using assms
  by (auto simp: worker_run_def split: worker.splits if_splits prod.splits)

lemma worker_wakeE:
  assumes "worker_wake cfg p s = Some s'"
  obtains "worker s = Sleeping"
    "s' = s\<lparr>worker := Receiving, trace := trace s @ [Slept (Interval cfg p)]\<rparr>"
  using assms by (auto simp: worker_wake_def split: worker.splits)

lemma caller_callE:
  assumes "caller_call i f s = Some s'"
  obtains "callers s i = NotCalled"
    "s' = s\<lparr>callers := (callers s)(i := Sending f), resultCh := (resultCh s)(i := [])\<rparr>"
  using assms by (auto simp: caller_call_def split: caller.splits)

lemma caller_enqueueE:
  assumes "caller_enqueue i s = Some s'"
  obtains f where "callers s i = Sending f" "length (jobCh s) < QueueSize"
    "s' = s\<lparr>jobCh := jobCh s @ [Job i f], callers := (callers s)(i := Waiting f),
             trace := trace s @ [Submitted i]\<rparr>"
  using assms by (auto simp: caller_enqueue_def split: caller.splits if_splits)

lemma caller_returnE:
  assumes "caller_return i s = Some s'"
  obtains f r rs where "callers s i = Waiting f" "resultCh s i = r # rs"
    "s' = s\<lparr>resultCh := (resultCh s)(i := rs), callers := (callers s)(i := Returned f r)\<rparr>"
  using assms by (auto simp: caller_return_def split: caller.splits list.splits)

lemmas stepE =
  start_workersE worker_receiveE worker_runE worker_wakeE caller_callE caller_enqueueE
  caller_returnE

lemma inv_init: "queue_inv (init w0)"
  by (simp add: queue_inv_def init_def current_def entered_def inv_cap_def inv_fifo_def
      inv_serial_def inv_once_def inv_entered_def inv_jobs_def inv_results_def inv_returned_def
      inv_delivered_def)

lemma step_cap:
  assumes "step cfg p a s = Some s'" "inv_cap s"
  shows "inv_cap s'"
  using assms by (cases a) (auto simp: inv_cap_def elim!: stepE)

lemma step_fifo:
  assumes "step cfg p a s = Some s'" "inv_fifo s"
  shows "inv_fifo s'"
  using assms by (cases a) (auto simp: inv_fifo_def elim!: stepE)

lemma step_serial:
  assumes "step cfg p a s = Some s'" "inv_serial s"
  shows "inv_serial s'"
  using assms by (cases a) (auto simp: inv_serial_def current_def elim!: stepE)


lemma entered_simps [simp]:
  "\<not> entered NotCalled" "\<not> entered (Sending f)" "entered (Waiting f)" "entered (Returned f r)"
  by (simp_all add: entered_def)

lemma step_once:
  assumes "step cfg p a s = Some s'" "inv_once s" "inv_entered s"
  shows "inv_once s'"
  using assms
  by (cases a) (auto simp: inv_once_def inv_entered_def elim!: stepE)

lemma step_entered:
  assumes "step cfg p a s = Some s'" "inv_entered s"
  shows "inv_entered s'"
proof (cases a)
  case (Call i f)
  with assms(1) have "callers s i = NotCalled" "callers s' = (callers s)(i := Sending f)"
    "trace s' = trace s"
    by (auto elim: caller_callE)
  with assms(2) show ?thesis
    by (auto simp: inv_entered_def)
next
  case (Enqueue i)
  with assms(1) obtain f where "callers s' = (callers s)(i := Waiting f)"
    "trace s' = trace s @ [Submitted i]"
    by (auto elim: caller_enqueueE)
  with assms(2) show ?thesis
    by (auto simp: inv_entered_def)
next
  case (Return i)
  with assms(1) obtain f r where "callers s i = Waiting f"
    "callers s' = (callers s)(i := Returned f r)" "trace s' = trace s"
    by (auto elim: caller_returnE)
  with assms(2) show ?thesis
    by (auto simp: inv_entered_def)
qed (use assms in \<open>auto simp: inv_entered_def elim!: stepE\<close>)

lemma finished_not_pending:
  assumes "inv_fifo s" "inv_serial s" "inv_once s" "i \<in> set (finished (trace s))"
  shows "i \<notin> set (current (worker s))" "i \<notin> ch ` set (jobCh s)"
  using assms by (auto simp: inv_fifo_def inv_serial_def inv_once_def)

lemma result_not_pending:
  assumes "inv_fifo s" "inv_serial s" "inv_once s" "inv_results s" "resultCh s i \<noteq> []"
  shows "i \<notin> set (current (worker s))" "i \<notin> ch ` set (jobCh s)"
proof -
  from assms(4,5) obtain w r where "Finished i w r \<in> set (trace s)"
    by (auto simp: inv_results_def)
  then have "i \<in> set (finished (trace s))"
    by (rule Finished_in_finished)
  with assms(1-3) show "i \<notin> set (current (worker s))" "i \<notin> ch ` set (jobCh s)"
    by (auto dest: finished_not_pending)
qed

lemma step_jobs:
  assumes "step cfg p a s = Some s'" "inv_jobs s"
    and "inv_fifo s" "inv_serial s" "inv_once s" "inv_results s"
  shows "inv_jobs s'"
proof (cases a)
  case (Return i)
  with assms(1) obtain f r rs where c: "callers s i = Waiting f" "resultCh s i = r # rs"
    and s': "s' = s\<lparr>resultCh := (resultCh s)(i := rs), callers := (callers s)(i := Returned f r)\<rparr>"
    by (auto elim: caller_returnE)
  from c(2) have "resultCh s i \<noteq> []"
    by simp
  from result_not_pending [OF assms(3-6) this]
  have "\<forall>j. j \<in> set (jobCh s) \<or> worker s = Running j \<longrightarrow> ch j \<noteq> i"
    by (auto simp: current_def)
  with assms(2) show ?thesis
    by (auto simp: inv_jobs_def s')
next
  case (Call i f)
  with assms(1,2) show ?thesis
    by (auto simp: inv_jobs_def elim!: stepE)
next
  case (Enqueue i)
  with assms(1,2) show ?thesis
    by (auto simp: inv_jobs_def elim!: stepE)
qed (use assms(1,2) in \<open>auto simp: inv_jobs_def elim!: stepE split: if_splits\<close>)

lemma step_results:
  assumes "step cfg p a s = Some s'" "inv_results s" "inv_jobs s"
  shows "inv_results s'"
proof (cases a)
  case RunJob
  with assms(1) obtain j r w' where j: "worker s = Running j" "fn j (client s) = (r, w')"
    and s': "resultCh s' = (resultCh s)(ch j := [r])" "callers s' = callers s"
      "trace s' = trace s @ [Finished (ch j) (client s) r]"
    by (auto elim: worker_runE)
  from assms(3) j(1) have wait: "callers s (ch j) = Waiting (fn j)"
    by (simp add: inv_jobs_def)
  from j(2) have r: "r = fst (fn j (client s))"
    by simp
  show ?thesis
    unfolding inv_results_def
  proof (intro allI impI)
    fix i
    assume ne: "resultCh s' i \<noteq> []"
    show "\<exists>f w. callers s' i = Waiting f \<and> resultCh s' i = [fst (f w)]
            \<and> Finished i w (fst (f w)) \<in> set (trace s')"
    proof (cases "i = ch j")
      case True
      with wait r s' show ?thesis
        by auto
    next
      case False
      with ne s' have "resultCh s i \<noteq> []"
        by simp
      with assms(2) obtain f w where "callers s i = Waiting f" "resultCh s i = [fst (f w)]"
        "Finished i w (fst (f w)) \<in> set (trace s)"
        unfolding inv_results_def by blast
      with False s' show ?thesis
        by auto
    qed
  qed
next
  case (Return i)
  with assms(1) obtain f r rs where c: "callers s i = Waiting f" "resultCh s i = r # rs"
    and s': "resultCh s' = (resultCh s)(i := rs)" "callers s' = (callers s)(i := Returned f r)"
      "trace s' = trace s"
    by (auto elim: caller_returnE)
  from assms(2) c(2) have "rs = []"
    unfolding inv_results_def by (metis list.discI list.inject)
  with assms(2) s' show ?thesis
    unfolding inv_results_def by auto
next
  case (Call i f)
  with assms(1) have s': "resultCh s' = (resultCh s)(i := [])"
    "callers s' = (callers s)(i := Sending f)" "trace s' = trace s"
    by (auto elim: caller_callE)
  with assms(2) show ?thesis
    unfolding inv_results_def by auto
next
  case (Enqueue i)
  with assms(1) obtain f where c: "callers s i = Sending f"
    and s': "resultCh s' = resultCh s" "callers s' = (callers s)(i := Waiting f)"
      "trace s' = trace s @ [Submitted i]"
    by (auto elim: caller_enqueueE)
  from assms(2) c have "resultCh s i = []"
    unfolding inv_results_def by (metis caller.distinct(7))
  with assms(2) s' show ?thesis
    unfolding inv_results_def by auto
qed (use assms(1,2) in \<open>auto simp: inv_results_def elim!: stepE\<close>)

lemma step_trace_mono:
  assumes "step cfg p a s = Some s'"
  shows "set (trace s) \<subseteq> set (trace s')"
  using assms by (cases a) (auto elim!: stepE)

lemma step_Returned_cases:
  assumes "step cfg p a s = Some s'" "callers s' i = Returned f r"
  shows "callers s i = Returned f r \<or> (a = Return i \<and> callers s i = Waiting f
            \<and> (\<exists>rs. resultCh s i = r # rs))"
  using assms by (cases a) (auto elim!: stepE split: if_splits)

lemma step_returned:
  assumes "step cfg p a s = Some s'" "inv_returned s" "inv_results s"
  shows "inv_returned s'"
  unfolding inv_returned_def
proof (intro allI impI)
  fix i f r
  assume "callers s' i = Returned f r"
  with assms(1) consider "callers s i = Returned f r"
    | rs where "callers s i = Waiting f" "resultCh s i = r # rs"
    by (auto dest: step_Returned_cases)
  then have "\<exists>w. r = fst (f w) \<and> Finished i w r \<in> set (trace s)"
  proof cases
    case 1
    with assms(2) show ?thesis
      by (simp add: inv_returned_def)
  next
    case 2
    from 2(2) have "resultCh s i \<noteq> []"
      by simp
    with assms(3) obtain f' w where "callers s i = Waiting f'" "resultCh s i = [fst (f' w)]"
      "Finished i w (fst (f' w)) \<in> set (trace s)"
      unfolding inv_results_def by blast
    with 2 show ?thesis
      by auto
  qed
  with step_trace_mono [OF assms(1)]
  show "\<exists>w. r = fst (f w) \<and> Finished i w r \<in> set (trace s')"
    by blast
qed

lemma step_delivered:
  assumes "step cfg p a s = Some s'" "inv_delivered s" "inv_jobs s"
  shows "inv_delivered s'"
proof (cases a)
  case RunJob
  with assms(1) obtain j r where j: "worker s = Running j"
    and s': "resultCh s' = (resultCh s)(ch j := [r])" "callers s' = callers s"
      "finished (trace s') = finished (trace s) @ [ch j]"
    by (auto elim!: worker_runE)
  from assms(3) j have "callers s (ch j) = Waiting (fn j)"
    by (simp add: inv_jobs_def)
  with assms(2) s' show ?thesis
    unfolding inv_delivered_def by auto
next
  case (Return i)
  with assms(1) obtain f r rs where
    s': "resultCh s' = (resultCh s)(i := rs)" "callers s' = (callers s)(i := Returned f r)"
      "trace s' = trace s"
    by (auto elim: caller_returnE)
  with assms(2) show ?thesis
    unfolding inv_delivered_def by auto
next
  case (Call i f)
  with assms(1) have c: "callers s i = NotCalled"
    and s': "resultCh s' = (resultCh s)(i := [])"
      "callers s' = (callers s)(i := Sending f)" "trace s' = trace s"
    by (auto elim: caller_callE)
  from assms(2) c have "i \<notin> set (finished (trace s))"
    unfolding inv_delivered_def by auto
  with assms(2) s' show ?thesis
    unfolding inv_delivered_def by auto
next
  case (Enqueue i)
  with assms(1) obtain f where c: "callers s i = Sending f"
    and s': "resultCh s' = resultCh s" "callers s' = (callers s)(i := Waiting f)"
      "finished (trace s') = finished (trace s)"
    by (auto elim: caller_enqueueE)
  from assms(2) c have "i \<notin> set (finished (trace s))"
    unfolding inv_delivered_def by auto
  with assms(2) s' show ?thesis
    unfolding inv_delivered_def by auto
qed (use assms(1,2) in \<open>auto simp: inv_delivered_def elim!: stepE\<close>)

lemma step_inv:
  assumes "step cfg p a s = Some s'" "queue_inv s"
  shows "queue_inv s'"
  using assms unfolding queue_inv_def
  by (auto intro: step_cap step_fifo step_serial step_once step_entered step_jobs step_results
      step_returned step_delivered)

lemma run_inv:
  assumes "run cfg p as s = Some s'" "queue_inv s"
  shows "queue_inv s'"
  using assms
proof (induction as arbitrary: s)
  case Nil
  then show ?case by simp
next
  case (Cons a as)
  then show ?case
    by (auto split: option.splits dest: step_inv)
qed

lemma reachable_inv:
  "run cfg p sched (init w0) = Some s \<Longrightarrow> queue_inv s"
  by (rule run_inv [OF _ inv_init])

lemma inv_fifoD: "queue_inv s \<Longrightarrow> submitted (trace s) = started (trace s) @ map ch (jobCh s)"
  by (simp add: queue_inv_def inv_fifo_def)

lemma inv_serialD: "queue_inv s \<Longrightarrow> started (trace s) = finished (trace s) @ current (worker s)"
  by (simp add: queue_inv_def inv_serial_def)

lemma inv_onceD: "queue_inv s \<Longrightarrow> distinct (submitted (trace s))"
  by (simp add: queue_inv_def inv_once_def)

lemma inv_capD: "queue_inv s \<Longrightarrow> length (jobCh s) \<le> QueueSize"
  by (simp add: queue_inv_def inv_cap_def)

lemma distinct_history:
  assumes "queue_inv s"
  shows "distinct (finished (trace s) @ current (worker s) @ map ch (jobCh s))"
proof -
  have "distinct (submitted (trace s))"
    using assms by (rule inv_onceD)
  then show ?thesis
    by (simp only: inv_fifoD [OF assms] inv_serialD [OF assms] append_assoc)
qed

lemma step_trace_cases:
  assumes "step cfg p a s = Some s'"
  shows "trace s' = trace s \<or> (\<exists>e. trace s' = trace s @ [e])"
  using assms by (cases a) (auto elim!: stepE)

lemma run_trace_prefix:
  assumes "run cfg p sched s = Some s'"
  shows "prefix (trace s) (trace s')"
  using assms
proof (induction sched arbitrary: s)
  case Nil
  then show ?case by simp
next
  case (Cons a as)
  from Cons.prems obtain s1 where s1: "step cfg p a s = Some s1" "run cfg p as s1 = Some s'"
    by (auto split: option.splits)
  from step_trace_cases [OF s1(1)] have "prefix (trace s) (trace s1)"
    by auto
  with Cons.IH [OF s1(2)] show ?case
    by (meson prefix_order.trans)
qed

text \<open>Every instant of the history of a run is the history of a run.\<close>

lemma history_reachable:
  assumes "run cfg p sched s = Some s'" "prefix (trace s) es" "prefix es (trace s')"
  shows "\<exists>sched' s''. run cfg p sched' s = Some s'' \<and> trace s'' = es"
  using assms
proof (induction sched arbitrary: s)
  case Nil
  then have "es = trace s"
    by (simp add: prefix_order.antisym)
  then have "run cfg p [] s = Some s \<and> trace s = es"
    by simp
  then show ?case
    by blast
next
  case (Cons a as)
  from Cons.prems(1) obtain s1 where s1: "step cfg p a s = Some s1" "run cfg p as s1 = Some s'"
    by (auto split: option.splits)
  show ?case
  proof (cases "prefix (trace s1) es")
    case True
    from Cons.IH [OF s1(2) True Cons.prems(3)]
    obtain sched' s'' where "run cfg p sched' s1 = Some s''" "trace s'' = es"
      by blast
    with s1(1) have "run cfg p (a # sched') s = Some s'' \<and> trace s'' = es"
      by simp
    then show ?thesis
      by blast
  next
    case False
    have "prefix (trace s1) (trace s')"
      using s1(2) by (rule run_trace_prefix)
    with Cons.prems(3) have "prefix es (trace s1)"
      using False by (meson prefix_same_cases)
    with step_trace_cases [OF s1(1)] False Cons.prems(2) have "es = trace s"
      by (auto simp: prefix_order.antisym)
    then have "run cfg p [] s = Some s \<and> trace s = es"
      by simp
    then show ?thesis
      by blast
  qed
qed

lemma executing_inv:
  assumes "queue_inv s"
  shows "executing (trace s) = current (worker s)"
proof -
  have "distinct (finished (trace s) @ current (worker s))"
    using distinct_history [OF assms] by auto
  then have "filter (\<lambda>i. i \<notin> set (finished (trace s))) (finished (trace s) @ current (worker s))
      = current (worker s)"
    by (auto simp: filter_empty_conv filter_id_conv)
  then show ?thesis
    by (simp add: executing_def inv_serialD [OF assms])
qed

lemma length_current: "length (current wk) \<le> 1"
  by (simp add: current_def split: worker.splits)

text \<open>
  C1. In every run of the queue of either platform, whatever the interleaving of the
  callers and the worker: the jobs are started in the order in which they entered the
  channel, each once, they finish in that order, and at every instant of the history at most
  one job is executing (started and not finished).
\<close>

theorem fifo_execution_never_overlaps:
  assumes "run cfg p sched (init w0) = Some s"
  shows "prefix (started (trace s)) (submitted (trace s))
       \<and> prefix (finished (trace s)) (started (trace s))
       \<and> distinct (started (trace s))
       \<and> (\<forall>es. prefix es (trace s) \<longrightarrow> length (executing es) \<le> 1)"
proof -
  from assms have inv: "queue_inv s"
    by (rule reachable_inv)
  note fifo = inv_fifoD [OF inv] and serial = inv_serialD [OF inv] and once = inv_onceD [OF inv]
  have "length (executing es) \<le> 1" if "prefix es (trace s)" for es
  proof -
    have "prefix (trace (init w0 :: ('a, 'b) queue)) es"
      by (simp add: init_def)
    from history_reachable [OF assms this that]
    obtain sched' s' where "run cfg p sched' (init w0) = Some s'" "trace s' = es"
      by blast
    then have "executing es = current (worker s')"
      using executing_inv [OF reachable_inv, of cfg p sched' w0 s'] by simp
    with length_current [of "worker s'"] show ?thesis
      by simp
  qed
  moreover from fifo once have "distinct (started (trace s))"
    by simp
  moreover from fifo have "prefix (started (trace s)) (submitted (trace s))"
    by simp
  moreover from serial have "prefix (finished (trace s)) (started (trace s))"
    by simp
  ultimately show ?thesis
    by blast
qed

lemmas queue_eval =
  init_def start_workers_def caller_call_def caller_enqueue_def worker_receive_def
  worker_run_def worker_wake_def caller_return_def QueueSize_def QueueEnabled_def Interval_def

lemma two_callers_run:
  "run sample_cfg Telegram two_callers (init 0)
     = Some \<lparr>jobCh = [], worker = Sleeping, resultCh = (\<lambda>i. []),
             callers = (\<lambda>i. if i = 0 then Returned fn42 (42, None)
                              else if i = 1 then Returned fn_fails (0, Some ''Too Many Requests'')
                              else NotCalled),
             client = 1,
             trace = [Submitted 1, Submitted 0, Started 1,
                      Finished 1 0 (0, Some ''Too Many Requests''), Slept 50, Started 0,
                      Finished 0 0 (42, None)]\<rparr>"
  by (simp add: two_callers_def queue_eval sample_cfg_def fn42_def fn_fails_def fun_eq_iff)

theorem fifo_witness:
  "\<exists>s. run sample_cfg Telegram two_callers (init 0) = Some s
       \<and> submitted (trace s) = [1, 0] \<and> started (trace s) = [1, 0]
       \<and> finished (trace s) = [1, 0]
       \<and> prefix (started (trace s)) (submitted (trace s))
       \<and> length (executing (take 3 (trace s))) \<le> 1"
proof -
  let ?s = "the (run sample_cfg Telegram two_callers (init 0))"
  have r: "run sample_cfg Telegram two_callers (init 0) = Some ?s"
    by (simp add: two_callers_run)
  from fifo_execution_never_overlaps [OF r]
  have "prefix (started (trace ?s)) (submitted (trace ?s))"
    and "\<forall>es. prefix es (trace ?s) \<longrightarrow> length (executing es) \<le> 1"
    by blast+
  moreover have "prefix (take 3 (trace ?s)) (trace ?s)"
    by (rule take_is_prefix)
  ultimately have "prefix (started (trace ?s)) (submitted (trace ?s))
      \<and> length (executing (take 3 (trace ?s))) \<le> 1"
    by blast
  with r show ?thesis
    by (simp add: two_callers_run)
qed

lemma run_append:
  "run cfg p (as @ bs) s = (case run cfg p as s of None \<Rightarrow> None | Some s' \<Rightarrow> run cfg p bs s')"
  by (induction as arbitrary: s) (simp_all split: option.splits)

lemma run_append_Some:
  "run cfg p as s = Some s1 \<Longrightarrow> run cfg p bs s1 = Some s2 \<Longrightarrow> run cfg p (as @ bs) s = Some s2"
  by (simp add: run_append)

lemma run_snoc:
  "run cfg p as s = Some s' \<Longrightarrow> run cfg p (as @ [a]) s = step cfg p a s'"
  by (simp add: run_append split: option.splits)

lemma calls_run:
  "run cfg p (calls m f) (init w0) = Some (filled m 0 f w0)"
proof (induction m)
  case 0
  then show ?case
    by (simp add: calls_def filled_def init_def)
next
  case (Suc m)
  have "step cfg p (Call m f) (filled m 0 f w0) = Some (filled (Suc m) 0 f w0)"
    by (auto simp: caller_call_def filled_def fun_eq_iff)
  with Suc show ?case
    by (simp add: calls_def run_snoc)
qed

lemma enqueues_run:
  assumes "n \<le> m" "n \<le> QueueSize"
  shows "run cfg p (enqueues n) (filled m 0 f w0) = Some (filled m n f w0)"
  using assms
proof (induction n)
  case 0
  then show ?case
    by (simp add: enqueues_def)
next
  case (Suc n)
  then have "n < m" "n < QueueSize"
    by simp_all
  then have "step cfg p (Enqueue n) (filled m n f w0) = Some (filled m (Suc n) f w0)"
    by (auto simp: caller_enqueue_def filled_def fun_eq_iff)
  with Suc show ?case
    by (simp add: enqueues_def run_snoc)
qed

lemma filled_run:
  assumes "n \<le> m" "n \<le> QueueSize"
  shows "run cfg p (calls m f @ enqueues n) (init w0) = Some (filled m n f w0)"
  using assms by (simp add: run_append calls_run enqueues_run)

lemma enqueue_enabled_iff:
  assumes "callers s i = Sending f"
  shows "step cfg p (Enqueue i) s \<noteq> None \<longleftrightarrow> length (jobCh s) < QueueSize"
  using assms by (simp add: caller_enqueue_def)

text \<open>
  C6. In every run of the queue of either platform: the job channel has capacity
  \<^const>\<open>QueueSize\<close>, which is 1000, and never holds more jobs; the send of a caller goes
  through exactly when the channel holds fewer than \<^const>\<open>QueueSize\<close> jobs, so it waits
  while the channel is full and goes through once the worker has taken a job out; and every
  job that entered the channel is finished, executing or still in the channel, once and in
  the order of entry.
\<close>

theorem bounded_channel_backpressure:
  assumes "run cfg p sched (init w0) = Some s"
  shows "QueueSize = 1000 \<and> length (jobCh s) \<le> QueueSize
       \<and> (\<forall>i f. callers s i = Sending f \<longrightarrow>
             (step cfg p (Enqueue i) s \<noteq> None \<longleftrightarrow> length (jobCh s) < QueueSize))
       \<and> submitted (trace s) = finished (trace s) @ executing (trace s) @ map ch (jobCh s)
       \<and> distinct (submitted (trace s))"
proof -
  from assms have inv: "queue_inv s"
    by (rule reachable_inv)
  have "submitted (trace s) = finished (trace s) @ executing (trace s) @ map ch (jobCh s)"
    by (simp add: inv_fifoD [OF inv] inv_serialD [OF inv] executing_inv [OF inv])
  moreover have "QueueSize = 1000"
    by (simp add: QueueSize_def)
  moreover have "\<forall>i f. callers s i = Sending f \<longrightarrow>
      (step cfg p (Enqueue i) s \<noteq> None \<longleftrightarrow> length (jobCh s) < QueueSize)"
    by (intro allI impI) (rule enqueue_enabled_iff)
  ultimately show ?thesis
    using inv_capD [OF inv] inv_onceD [OF inv] by blast
qed

text \<open>
  1001 callers and a worker that is not launched: 1000 sends go through, the channel is
  full, and the send of caller 1000 waits; it goes through after the worker has been
  launched and has taken a job.
\<close>

theorem backpressure_witness:
  "\<exists>s s'. run sample_cfg Telegram (calls 1001 fn42 @ enqueues 1000) (init 0) = Some s
       \<and> length (jobCh s) = QueueSize
       \<and> callers s 1000 = Sending fn42
       \<and> step sample_cfg Telegram (Enqueue 1000) s = None
       \<and> run sample_cfg Telegram [StartWorkers, Receive] s = Some s'
       \<and> step sample_cfg Telegram (Enqueue 1000) s' \<noteq> None"
proof -
  let ?s = "filled 1001 1000 fn42 (0::nat) :: (nat, int \<times> string option) queue"
  have r: "run sample_cfg Telegram (calls 1001 fn42 @ enqueues 1000) (init 0) = Some ?s"
    by (rule filled_run) (simp_all add: QueueSize_def)
  have full: "length (jobCh ?s) = QueueSize" and c: "callers ?s 1000 = Sending fn42"
    by (simp_all add: filled_def QueueSize_def)
  from bounded_channel_backpressure [OF r] c
  have "step sample_cfg Telegram (Enqueue 1000) ?s \<noteq> None \<longleftrightarrow> length (jobCh ?s) < QueueSize"
    by blast
  with full have blocked: "step sample_cfg Telegram (Enqueue 1000) ?s = None"
    by simp
  obtain s' where s': "run sample_cfg Telegram [StartWorkers, Receive] ?s = Some s'"
    "length (jobCh s') = 999" "callers s' 1000 = Sending fn42"
    by (simp add: filled_def start_workers_def worker_receive_def upt_rec [of 0 1000])
  from r s'(1) have "run sample_cfg Telegram
      ((calls 1001 fn42 @ enqueues 1000) @ [StartWorkers, Receive]) (init 0) = Some s'"
    by (rule run_append_Some)
  from bounded_channel_backpressure [OF this] s'(3)
  have "step sample_cfg Telegram (Enqueue 1000) s' \<noteq> None \<longleftrightarrow> length (jobCh s') < QueueSize"
    by blast
  with s'(2) have "step sample_cfg Telegram (Enqueue 1000) s' \<noteq> None"
    by (simp add: QueueSize_def)
  with r full c blocked s'(1) show ?thesis
    by blast
qed

lemma step_frame_fn:
  assumes "step cfg p a s = Some s'" "frame_fn (callers s' i) = Some f"
  shows "frame_fn (callers s i) = Some f \<or> a = Call i f"
  using assms by (cases a) (auto simp: frame_fn_def elim!: stepE split: if_splits)

lemma run_frame_fn:
  assumes "run cfg p sched s = Some s'" "frame_fn (callers s' i) = Some f"
  shows "frame_fn (callers s i) = Some f \<or> Call i f \<in> set sched"
  using assms
proof (induction sched arbitrary: s)
  case Nil
  then show ?case by simp
next
  case (Cons a as)
  from Cons.prems(1) obtain s1 where s1: "step cfg p a s = Some s1" "run cfg p as s1 = Some s'"
    by (auto split: option.splits)
  from Cons.IH [OF s1(2) Cons.prems(2)] step_frame_fn [OF s1(1)] show ?case
    by auto
qed

lemma called_with:
  assumes "run cfg p sched (init w0) = Some s" "frame_fn (callers s i) = Some f"
  shows "Call i f \<in> set sched"
  using run_frame_fn [OF assms] by (simp add: init_def frame_fn_def)

lemma Finished_unique:
  assumes "distinct (finished es)" "Finished i w r \<in> set es" "Finished i w' r' \<in> set es"
  shows "w' = w \<and> r' = r"
  using assms
  by (induction es rule: finished.induct) (auto dest: Finished_in_finished)

lemma distinct_count_one: "distinct xs \<Longrightarrow> x \<in> set xs \<Longrightarrow> count_list xs x = 1"
  by (induction xs) auto

lemma distinct_started:
  assumes "queue_inv s"
  shows "distinct (started (trace s))"
proof -
  have "distinct (submitted (trace s))"
    using assms by (rule inv_onceD)
  then have "distinct (started (trace s) @ map ch (jobCh s))"
    by (simp only: inv_fifoD [OF assms])
  then show ?thesis
    by simp
qed

lemma distinct_finished:
  assumes "queue_inv s"
  shows "distinct (finished (trace s))"
proof -
  have "distinct (finished (trace s) @ current (worker s))"
    using distinct_started [OF assms] by (simp only: inv_serialD [OF assms])
  then show ?thesis
    by simp
qed

lemma return_enabled_iff:
  assumes "queue_inv s" "callers s i = Waiting f"
  shows "step cfg p (Return i) s \<noteq> None \<longleftrightarrow> i \<in> set (finished (trace s))"
proof
  assume "step cfg p (Return i) s \<noteq> None"
  with assms(2) have "resultCh s i \<noteq> []"
    by (auto simp: caller_return_def split: list.splits)
  with assms(1) obtain w r where "Finished i w r \<in> set (trace s)"
    unfolding queue_inv_def inv_results_def by blast
  then show "i \<in> set (finished (trace s))"
    by (rule Finished_in_finished)
next
  assume "i \<in> set (finished (trace s))"
  with assms have "resultCh s i \<noteq> []"
    unfolding queue_inv_def inv_delivered_def by auto
  with assms(2) show "step cfg p (Return i) s \<noteq> None"
    by (auto simp: caller_return_def split: list.splits)
qed

lemma returned_result:
  assumes "queue_inv s" "callers s i = Returned f r"
  shows "(\<exists>w. r = fst (f w) \<and> Finished i w r \<in> set (trace s))
       \<and> (\<forall>w' r'. Finished i w' r' \<in> set (trace s) \<longrightarrow> r' = r)
       \<and> count_list (started (trace s)) i = 1"
proof -
  from assms obtain w where w: "r = fst (f w)" "Finished i w r \<in> set (trace s)"
    unfolding queue_inv_def inv_returned_def by blast
  from distinct_finished [OF assms(1)] w(2)
  have u: "\<forall>w' r'. Finished i w' r' \<in> set (trace s) \<longrightarrow> r' = r"
    by (blast dest: Finished_unique)
  have "i \<in> set (started (trace s))"
    using Finished_in_finished [OF w(2)] by (simp add: inv_serialD [OF assms(1)])
  with distinct_started [OF assms(1)] have "count_list (started (trace s)) i = 1"
    by (rule distinct_count_one)
  with w u show ?thesis
    by blast
qed

lemma running_result_empty:
  assumes "queue_inv s" "worker s = Running j"
  shows "resultCh s (ch j) = []"
proof (rule ccontr)
  assume "resultCh s (ch j) \<noteq> []"
  moreover have "inv_fifo s" "inv_serial s" "inv_once s" "inv_results s"
    using assms(1) by (simp_all add: queue_inv_def)
  ultimately have "ch j \<notin> set (current (worker s))"
    using result_not_pending(1) by blast
  with assms(2) show False
    by (simp add: current_def)
qed

text \<open>The worker steps leave the callers alone.\<close>

lemma finish_job:
  assumes "queue_inv s" "worker s = Running j"
  shows "\<exists>ws s'. run cfg p ws s = Some s' \<and> worker s' = Receiving
           \<and> jobCh s' = jobCh s \<and> callers s' = callers s"
proof (cases "QueueEnabled cfg p")
  case True
  obtain r w' where f: "fn j (client s) = (r, w')"
    by (cases "fn j (client s)")
  let ?s' = "s\<lparr>client := w', resultCh := (resultCh s)(ch j := resultCh s (ch j) @ [r]),
      worker := Sleeping, trace := trace s @ [Finished (ch j) (client s) r]\<rparr>"
  let ?b = "?s'\<lparr>worker := Receiving, trace := trace ?s' @ [Slept (Interval cfg p)]\<rparr>"
  have "run cfg p [RunJob, Wake] s = Some ?b"
    using assms(2) running_result_empty [OF assms] True f
    by (simp add: worker_run_def worker_wake_def)
  moreover have "worker ?b = Receiving" "jobCh ?b = jobCh s" "callers ?b = callers s"
    by simp_all
  ultimately show ?thesis
    by blast
next
  case False
  obtain r w' where f: "fn j (client s) = (r, w')"
    by (cases "fn j (client s)")
  let ?b = "s\<lparr>client := w', resultCh := (resultCh s)(ch j := resultCh s (ch j) @ [r]),
      worker := Receiving, trace := trace s @ [Finished (ch j) (client s) r]\<rparr>"
  have "run cfg p [RunJob] s = Some ?b"
    using assms(2) running_result_empty [OF assms] False f
    by (simp add: worker_run_def)
  moreover have "worker ?b = Receiving" "jobCh ?b = jobCh s" "callers ?b = callers s"
    by simp_all
  ultimately show ?thesis
    by blast
qed

lemma to_receiving:
  assumes "queue_inv s" "worker s \<noteq> NotStarted"
  shows "\<exists>ws s'. run cfg p ws s = Some s' \<and> worker s' = Receiving
           \<and> jobCh s' = jobCh s \<and> callers s' = callers s"
proof (cases "worker s")
  case NotStarted
  with assms(2) show ?thesis
    by simp
next
  case Receiving
  then have "run cfg p [] s = Some s \<and> worker s = Receiving
      \<and> jobCh s = jobCh s \<and> callers s = callers s"
    by simp
  then show ?thesis
    by blast
next
  case (Running j)
  from finish_job [OF assms(1) this] show ?thesis
    by blast
next
  case Sleeping
  let ?b = "s\<lparr>worker := Receiving, trace := trace s @ [Slept (Interval cfg p)]\<rparr>"
  from Sleeping have "run cfg p [Wake] s = Some ?b"
    by (simp add: worker_wake_def)
  moreover have "worker ?b = Receiving" "jobCh ?b = jobCh s" "callers ?b = callers s"
    by simp_all
  ultimately show ?thesis
    by blast
qed

lemma drain:
  assumes "queue_inv s" "worker s = Receiving"
  shows "\<exists>ws s'. run cfg p ws s = Some s' \<and> worker s' = Receiving \<and> jobCh s' = []
           \<and> callers s' = callers s"
  using assms
proof (induction "jobCh s" arbitrary: s)
  case Nil
  then have "run cfg p [] s = Some s \<and> worker s = Receiving \<and> jobCh s = [] \<and> callers s = callers s"
    by simp
  then show ?case
    by blast
next
  case (Cons j js)
  let ?a = "s\<lparr>jobCh := js, worker := Running j, trace := trace s @ [Started (ch j)]\<rparr>"
  have a: "step cfg p Receive s = Some ?a"
    using Cons.prems(2) Cons.hyps(2) [symmetric] by (simp add: worker_receive_def)
  then have inv_a: "queue_inv ?a"
    using Cons.prems(1) by (rule step_inv)
  have "worker ?a = Running j"
    by simp
  from finish_job [OF inv_a this, of cfg p]
  obtain ws b where b: "run cfg p ws ?a = Some b" "worker b = Receiving" "jobCh b = js"
    "callers b = callers s"
    by auto
  have inv_b: "queue_inv b"
    using b(1) inv_a by (rule run_inv)
  from Cons.hyps(1) [OF b(3) [symmetric] inv_b b(2)]
  obtain ws' s' where s': "run cfg p ws' b = Some s'" "worker s' = Receiving" "jobCh s' = []"
    "callers s' = callers b"
    by blast
  from a b(1) have "run cfg p (Receive # ws) s = Some b"
    by simp
  from this s'(1) have "run cfg p ((Receive # ws) @ ws') s = Some s'"
    by (rule run_append_Some)
  moreover have "callers s' = callers s"
    using s'(4) b(4) by simp
  ultimately show ?case
    using s'(2,3) by blast
qed

text \<open>
  From any state of a run in which the worker has been launched, a call that has not been
  made yet can be made and can return what its function gives the worker.
\<close>

lemma call_can_return:
  assumes "queue_inv s" "worker s \<noteq> NotStarted" "callers s i = NotCalled"
  shows "\<exists>more s' w. run cfg p more s = Some s' \<and> callers s' i = Returned f (fst (f w))"
proof -
  from to_receiving [OF assms(1,2), of cfg p]
  obtain ws a where a: "run cfg p ws s = Some a" "worker a = Receiving" "callers a = callers s"
    by auto
  have inv_a: "queue_inv a"
    using a(1) assms(1) by (rule run_inv)
  from drain [OF inv_a a(2), of cfg p]
  obtain ws' b where b: "run cfg p ws' a = Some b" "worker b = Receiving" "jobCh b = []"
    "callers b = callers a"
    by blast
  have idle: "callers b i = NotCalled"
    using b(4) a(3) assms(3) by simp
  obtain r w' where f: "f (client b) = (r, w')"
    by (cases "f (client b)")
  have "\<exists>s'. run cfg p ([Call i f, Enqueue i, Receive, RunJob]
          @ (if QueueEnabled cfg p then [Wake] else []) @ [Return i]) b = Some s'
        \<and> callers s' i = Returned f r"
    using idle b(2,3) f
    by (simp add: caller_call_def caller_enqueue_def worker_receive_def worker_run_def
        worker_wake_def caller_return_def QueueSize_def)
  then obtain tl s' where s': "run cfg p tl b = Some s'" "callers s' i = Returned f r"
    by blast
  from a(1) b(1) have "run cfg p (ws @ ws') s = Some b"
    by (rule run_append_Some)
  from this s'(1) have "run cfg p ((ws @ ws') @ tl) s = Some s'"
    by (rule run_append_Some)
  moreover from f have "r = fst (f (client b))"
    by simp
  ultimately show ?thesis
    using s'(2) by blast
qed

text \<open>
  C2. In every run of a queue (the one of \<^verbatim>\<open>TgRun\<close> and the one of \<^verbatim>\<open>WaSend\<close>): a caller
  at its receive can return exactly when its job has finished on the worker; a caller that
  has returned was called with the function \<open>f\<close> in its frame and returns the very result
  \<open>f\<close> gave when the worker ran it, the job having been started once and no other result
  recorded for it; and a call that has not been made yet can, once the worker is launched,
  be made and return what its function gives.
\<close>

theorem TgRun_returns_what_fn_returned:
  assumes "run cfg p sched (init w0) = Some s"
  shows "(\<forall>f. callers s i = Waiting f \<longrightarrow>
            (step cfg p (Return i) s \<noteq> None \<longleftrightarrow> i \<in> set (finished (trace s))))
       \<and> (\<forall>f r. callers s i = Returned f r \<longrightarrow>
            Call i f \<in> set sched
            \<and> (\<exists>w. r = fst (f w) \<and> Finished i w r \<in> set (trace s))
            \<and> (\<forall>w' r'. Finished i w' r' \<in> set (trace s) \<longrightarrow> r' = r)
            \<and> count_list (started (trace s)) i = 1)
       \<and> (\<forall>f. callers s i = NotCalled \<and> worker s \<noteq> NotStarted \<longrightarrow>
            (\<exists>more s' w. run cfg p more s = Some s'
                \<and> callers s' i = Returned f (fst (f w))))"
proof -
  from assms have inv: "queue_inv s"
    by (rule reachable_inv)
  have "step cfg p (Return i) s \<noteq> None \<longleftrightarrow> i \<in> set (finished (trace s))"
    if "callers s i = Waiting f" for f
    using inv that by (rule return_enabled_iff)
  moreover have "Call i f \<in> set sched" if "callers s i = Returned f r" for f r
    using assms that by (auto intro: called_with simp: frame_fn_def)
  moreover have "\<exists>more s' w. run cfg p more s = Some s' \<and> callers s' i = Returned f (fst (f w))"
    if "callers s i = NotCalled \<and> worker s \<noteq> NotStarted" for f
  proof -
    from that have "worker s \<noteq> NotStarted" "callers s i = NotCalled"
      by simp_all
    with inv show ?thesis
      by (rule call_can_return)
  qed
  ultimately show ?thesis
    using returned_result [OF inv] by blast
qed

lemma one_call_run:
  "run sample_cfg Telegram one_call (init 0)
     = Some \<lparr>jobCh = [], worker = Receiving, resultCh = (\<lambda>i. []),
             callers = (\<lambda>i. if i = 0 then Returned fn42 (42, None) else NotCalled),
             client = 1,
             trace = [Submitted 0, Started 0, Finished 0 0 (42, None), Slept 50]\<rparr>"
  by (simp add: one_call_def queue_eval sample_cfg_def fn42_def fun_eq_iff)

theorem TgRun_witness:
  "\<exists>s. run sample_cfg Telegram one_call (init 0) = Some s
       \<and> callers s 0 = Returned fn42 (42, None)
       \<and> Call 0 fn42 \<in> set one_call
       \<and> Finished 0 0 (42, None) \<in> set (trace s)
       \<and> count_list (started (trace s)) 0 = 1"
proof -
  let ?s = "the (run sample_cfg Telegram one_call (init 0))"
  have r: "run sample_cfg Telegram one_call (init 0) = Some ?s"
    by (simp add: one_call_run)
  have c: "callers ?s 0 = Returned fn42 (42, None)"
    by (simp add: one_call_run)
  from TgRun_returns_what_fn_returned [OF r, of 0] c
  have "Call 0 fn42 \<in> set one_call \<and> count_list (started (trace ?s)) 0 = 1"
    by blast
  moreover have "Finished 0 0 (42, None) \<in> set (trace ?s)"
    by (simp add: one_call_run)
  ultimately show ?thesis
    using r c by blast
qed


end
